theory Spec2Isabelle
  imports Main "HOL-Library.Word"
begin

unbundle bit_operations_syntax

section \<open>The LawVault contract\<close>

text \<open>
  The Solidity contract \<open>LawVault\<close> keeps one \<open>Contract\<close> struct per id in the mapping
  \<open>contracts\<close>, two index mappings from an address to the ids it takes part in, and the
  counter \<open>totalContracts\<close>. A Solidity mapping is total: a key never written reads as the
  zero value of its type, so the mappings are total functions here. \<open>uint256\<close> is a
  256-bit word, an \<open>address\<close> a 160-bit word, and the handles \<open>euint32\<close> and
  \<open>externalEuint32\<close> are the 32-byte values the FHE library passes around.
\<close>

type_synonym uint256 = "256 word"
type_synonym address = "160 word"
type_synonym euint32 = "256 word"
type_synonym externalEuint32 = "256 word"
type_synonym bytes = "8 word list"

datatype ContractStatus =
    PendingClientApproval
  | PendingLawyerFinalConfirmation
  | Completed

record Contract =
  id_f :: uint256
  title :: string
  encryptedContent :: euint32
  lawyer :: address
  client :: address
  status :: ContractStatus
  createdAt :: uint256
  clientApprovedAt :: uint256
  lawyerConfirmedAt :: uint256
  exists :: bool

text \<open>The value every slot of \<open>contracts\<close> holds before it is written.\<close>

definition zero_Contract :: Contract where
  "zero_Contract = \<lparr> id_f = 0, title = [], encryptedContent = 0, lawyer = 0, client = 0,
     status = PendingClientApproval, createdAt = 0, clientApprovedAt = 0,
     lawyerConfirmedAt = 0, exists = False \<rparr>"

datatype event =
    ContractCreated uint256 address address string uint256
  | ClientApproved uint256 address uint256
  | LawyerConfirmed uint256 address uint256

text \<open>
  The state a transaction reads and writes: the four storage variables of the contract,
  the grants the contract has made on the access-control list of the FHE library (the
  pairs of a ciphertext handle and an address allowed to use it, which \<open>FHE.allowThis\<close>
  and \<open>FHE.allow\<close> add), and the log of emitted events.
\<close>

record LawVault =
  contracts :: "uint256 \<Rightarrow> Contract"
  clientContracts :: "address \<Rightarrow> uint256 list"
  lawyerContracts :: "address \<Rightarrow> uint256 list"
  totalContracts :: uint256
  acl :: "(euint32 \<times> address) set"
  events :: "event list"

definition init_vault :: LawVault where
  "init_vault = \<lparr> contracts = (\<lambda>_. zero_Contract), clientContracts = (\<lambda>_. []),
     lawyerContracts = (\<lambda>_. []), totalContracts = 0, acl = {}, events = [] \<rparr>"

text \<open>
  A transaction that fails reverts: a failed \<open>require\<close> carries its message, the checked
  increment of Solidity 0.8 panics on overflow, \<open>FHE.fromExternal\<close> reverts when the
  input proof does not verify, and the getter the compiler generates for a public array
  reverts on an index past its end.
\<close>

datatype failure =
    Require string
  | ArithmeticPanic
  | InputRejected
  | IndexOutOfRange

text \<open>
  The FHE library is not part of the repository. What the contract needs from it is taken
  as a parameter: the contract's own address (the grantee of \<open>FHE.allowThis\<close>) and the
  result of \<open>FHE.fromExternal\<close> on an external handle, its proof and the caller, \<open>None\<close>
  when the library reverts.
\<close>

record fhe_env =
  self_address :: address
  fromExternal :: "externalEuint32 \<Rightarrow> bytes \<Rightarrow> address \<Rightarrow> euint32 option"

definition createContract ::
  "fhe_env \<Rightarrow> LawVault \<Rightarrow> address \<Rightarrow> uint256 \<Rightarrow> string \<Rightarrow> address \<Rightarrow> externalEuint32 \<Rightarrow> bytes
     \<Rightarrow> failure + (LawVault \<times> uint256)" where
  "createContract E s sender now ttl cl ext inputProof =
     (if cl = 0 then Inl (Require ''Client address cannot be zero'')
      else if cl = sender then Inl (Require ''Lawyer and client cannot be the same'')
      else if \<not> 0 < length ttl then Inl (Require ''Title cannot be empty'')
      else
        let contractId = totalContracts s in
        if totalContracts s = - 1 then Inl ArithmeticPanic
        else
          (case fromExternal E ext inputProof sender of
             None \<Rightarrow> Inl InputRejected
           | Some encryptedEuint32 \<Rightarrow>
               Inr (s \<lparr> contracts := (contracts s) (contractId :=
                           \<lparr> id_f = contractId, title = ttl,
                             encryptedContent = encryptedEuint32,
                             lawyer = sender, client = cl,
                             status = PendingClientApproval,
                             createdAt = now, clientApprovedAt = 0,
                             lawyerConfirmedAt = 0, exists = True \<rparr>),
                         clientContracts := (clientContracts s)
                           (cl := clientContracts s cl @ [contractId]),
                         lawyerContracts := (lawyerContracts s)
                           (sender := lawyerContracts s sender @ [contractId]),
                         totalContracts := totalContracts s + 1,
                         acl := insert (encryptedEuint32, self_address E) (acl s),
                         events := events s @ [ContractCreated contractId sender cl ttl now] \<rparr>,
                    contractId)))"

definition clientApprove ::
  "LawVault \<Rightarrow> address \<Rightarrow> uint256 \<Rightarrow> uint256 \<Rightarrow> failure + LawVault" where
  "clientApprove s sender now contractId =
     (let contractData = contracts s contractId in
      if \<not> exists contractData then Inl (Require ''Contract does not exist'')
      else if client contractData \<noteq> sender then Inl (Require ''Only client can approve'')
      else if status contractData \<noteq> PendingClientApproval
        then Inl (Require ''Contract not in pending client approval status'')
      else Inr (s \<lparr> contracts := (contracts s) (contractId :=
                        contractData \<lparr> status := PendingLawyerFinalConfirmation,
                                       clientApprovedAt := now \<rparr>),
                      events := events s @ [ClientApproved contractId sender now] \<rparr>))"

definition lawyerConfirm ::
  "LawVault \<Rightarrow> address \<Rightarrow> uint256 \<Rightarrow> uint256 \<Rightarrow> failure + LawVault" where
  "lawyerConfirm s sender now contractId =
     (let contractData = contracts s contractId in
      if \<not> exists contractData then Inl (Require ''Contract does not exist'')
      else if lawyer contractData \<noteq> sender then Inl (Require ''Only lawyer can confirm'')
      else if status contractData \<noteq> PendingLawyerFinalConfirmation
        then Inl (Require ''Contract not in pending lawyer confirmation status'')
      else Inr (s \<lparr> contracts := (contracts s) (contractId :=
                        contractData \<lparr> status := Completed, lawyerConfirmedAt := now \<rparr>),
                      acl := insert (encryptedContent contractData, client contractData)
                               (insert (encryptedContent contractData, lawyer contractData)
                                  (acl s)),
                      events := events s @ [LawyerConfirmed contractId sender now] \<rparr>))"

text \<open>The view functions read the state and return a value; they have no state to return.\<close>

definition getContract ::
  "LawVault \<Rightarrow> uint256
     \<Rightarrow> failure + (string \<times> address \<times> address \<times> ContractStatus \<times> uint256 \<times> uint256 \<times> uint256)" where
  "getContract s contractId =
     (let contractData = contracts s contractId in
      if \<not> exists contractData then Inl (Require ''Contract does not exist'')
      else Inr (title contractData, lawyer contractData, client contractData,
                status contractData, createdAt contractData,
                clientApprovedAt contractData, lawyerConfirmedAt contractData))"

definition getEncryptedContent :: "LawVault \<Rightarrow> address \<Rightarrow> uint256 \<Rightarrow> failure + euint32" where
  "getEncryptedContent s sender contractId =
     (let contractData = contracts s contractId in
      if \<not> exists contractData then Inl (Require ''Contract does not exist'')
      else if status contractData \<noteq> Completed
        then Inl (Require ''Contract must be completed to access content'')
      else if \<not> (sender = lawyer contractData \<or> sender = client contractData)
        then Inl (Require ''Only lawyer or client can access content'')
      else Inr (encryptedContent contractData))"

definition getClientContracts :: "LawVault \<Rightarrow> address \<Rightarrow> uint256 list" where
  "getClientContracts s c = clientContracts s c"

definition getLawyerContracts :: "LawVault \<Rightarrow> address \<Rightarrow> uint256 list" where
  "getLawyerContracts s l = lawyerContracts s l"

definition contractExists :: "LawVault \<Rightarrow> uint256 \<Rightarrow> bool" where
  "contractExists s contractId = exists (contracts s contractId)"

subsection \<open>Transactions\<close>

text \<open>
  A call to the contract comes with its sender and the block's timestamp: one of the
  eight functions the contract declares or one of the four getters of its public state
  variables. A call that reverts leaves the state as it was before the call; a view call
  returns the state it was given.
\<close>

datatype call =
    Call_createContract string address externalEuint32 bytes
  | Call_clientApprove uint256
  | Call_lawyerConfirm uint256
  | Call_getContract uint256
  | Call_getEncryptedContent uint256
  | Call_getClientContracts address
  | Call_getLawyerContracts address
  | Call_contractExists uint256
  | Call_contracts uint256
  | Call_clientContracts address uint256
  | Call_lawyerContracts address uint256
  | Call_totalContracts

datatype retval =
    Ret_unit
  | Ret_uint256 uint256
  | Ret_struct Contract
  | Ret_contract string address address ContractStatus uint256 uint256 uint256
  | Ret_euint32 euint32
  | Ret_ids "uint256 list"
  | Ret_bool bool

fun exec :: "fhe_env \<Rightarrow> LawVault \<Rightarrow> address \<Rightarrow> uint256 \<Rightarrow> call \<Rightarrow> failure + (LawVault \<times> retval)" where
  "exec E s sender now (Call_createContract ttl cl ext prf) =
     (case createContract E s sender now ttl cl ext prf of
        Inl e \<Rightarrow> Inl e | Inr (s', i) \<Rightarrow> Inr (s', Ret_uint256 i))"
| "exec E s sender now (Call_clientApprove i) =
     (case clientApprove s sender now i of Inl e \<Rightarrow> Inl e | Inr s' \<Rightarrow> Inr (s', Ret_unit))"
| "exec E s sender now (Call_lawyerConfirm i) =
     (case lawyerConfirm s sender now i of Inl e \<Rightarrow> Inl e | Inr s' \<Rightarrow> Inr (s', Ret_unit))"
| "exec E s sender now (Call_getContract i) =
     (case getContract s i of
        Inl e \<Rightarrow> Inl e
      | Inr (t, l, c, st, ca, cpa, lca) \<Rightarrow> Inr (s, Ret_contract t l c st ca cpa lca))"
| "exec E s sender now (Call_getEncryptedContent i) =
     (case getEncryptedContent s sender i of Inl e \<Rightarrow> Inl e | Inr h \<Rightarrow> Inr (s, Ret_euint32 h))"
| "exec E s sender now (Call_getClientContracts a) = Inr (s, Ret_ids (getClientContracts s a))"
| "exec E s sender now (Call_getLawyerContracts a) = Inr (s, Ret_ids (getLawyerContracts s a))"
| "exec E s sender now (Call_contractExists i) = Inr (s, Ret_bool (contractExists s i))"
| "exec E s sender now (Call_contracts i) = Inr (s, Ret_struct (contracts s i))"
| "exec E s sender now (Call_clientContracts a n) =
     (if unat n < length (clientContracts s a)
      then Inr (s, Ret_uint256 (clientContracts s a ! unat n)) else Inl IndexOutOfRange)"
| "exec E s sender now (Call_lawyerContracts a n) =
     (if unat n < length (lawyerContracts s a)
      then Inr (s, Ret_uint256 (lawyerContracts s a ! unat n)) else Inl IndexOutOfRange)"
| "exec E s sender now (Call_totalContracts) = Inr (s, Ret_uint256 (totalContracts s))"

text \<open>The state after a transaction: the new state on success, the old one on revert.\<close>

definition after :: "fhe_env \<Rightarrow> LawVault \<Rightarrow> address \<times> uint256 \<times> call \<Rightarrow> LawVault" where
  "after E s tx = (case tx of (sender, now, c) \<Rightarrow>
     (case exec E s sender now c of Inl _ \<Rightarrow> s | Inr (s', _) \<Rightarrow> s'))"

fun run :: "fhe_env \<Rightarrow> LawVault \<Rightarrow> (address \<times> uint256 \<times> call) list \<Rightarrow> LawVault" where
  "run E s [] = s"
| "run E s (tx # txs) = run E (after E s tx) txs"

text \<open>The states the contract can be in: those a sequence of transactions leads to from
  the state at deployment.\<close>

inductive reachable :: "fhe_env \<Rightarrow> LawVault \<Rightarrow> bool" for E where
  reachable_init: "reachable E init_vault"
| reachable_step: "reachable E s \<Longrightarrow> reachable E (after E s tx)"

text \<open>The position of a status in the order of the enum.\<close>

fun rank :: "ContractStatus \<Rightarrow> nat" where
  "rank PendingClientApproval = 0"
| "rank PendingLawyerFinalConfirmation = 1"
| "rank Completed = 2"

subsection \<open>What a successful call did\<close>

text \<open>
  Each mutating function, when it returns, has passed all its guards and produced exactly
  one new state. The three lemmas below read that off the definitions; every later proof
  goes through them.
\<close>

lemma createContract_Inr:
  assumes "createContract E s sender now ttl cl ext inputProof = Inr (s', i)"
  shows "cl \<noteq> 0 \<and> cl \<noteq> sender \<and> ttl \<noteq> [] \<and> totalContracts s \<noteq> - 1 \<and> i = totalContracts s \<and>
    (\<exists>h. fromExternal E ext inputProof sender = Some h \<and>
      s' = s \<lparr> contracts := (contracts s) (totalContracts s :=
                           \<lparr> id_f = totalContracts s, title = ttl,
                             encryptedContent = h,
                             lawyer = sender, client = cl,
                             status = PendingClientApproval,
                             createdAt = now, clientApprovedAt = 0,
                             lawyerConfirmedAt = 0, exists = True \<rparr>),
                         clientContracts := (clientContracts s)
                           (cl := clientContracts s cl @ [totalContracts s]),
                         lawyerContracts := (lawyerContracts s)
                           (sender := lawyerContracts s sender @ [totalContracts s]),
                         totalContracts := totalContracts s + 1,
                         acl := insert (h, self_address E) (acl s),
                         events := events s @ [ContractCreated (totalContracts s) sender cl ttl now] \<rparr>)"
  using assms
  by (auto simp: createContract_def Let_def split: if_splits option.splits)

lemma clientApprove_Inr:
  assumes "clientApprove s sender now i = Inr s'"
  shows "exists (contracts s i) \<and> client (contracts s i) = sender \<and>
         status (contracts s i) = PendingClientApproval \<and>
         s' = s \<lparr> contracts := (contracts s) (i :=
                        (contracts s i) \<lparr> status := PendingLawyerFinalConfirmation,
                                       clientApprovedAt := now \<rparr>),
                      events := events s @ [ClientApproved i sender now] \<rparr>"
  using assms by (auto simp: clientApprove_def Let_def split: if_splits)

lemma lawyerConfirm_Inr:
  assumes "lawyerConfirm s sender now i = Inr s'"
  shows "exists (contracts s i) \<and> lawyer (contracts s i) = sender \<and>
         status (contracts s i) = PendingLawyerFinalConfirmation \<and>
         s' = s \<lparr> contracts := (contracts s) (i :=
                        (contracts s i) \<lparr> status := Completed, lawyerConfirmedAt := now \<rparr>),
                      acl := insert (encryptedContent (contracts s i), client (contracts s i))
                               (insert (encryptedContent (contracts s i), lawyer (contracts s i))
                                  (acl s)),
                      events := events s @ [LawyerConfirmed i sender now] \<rparr>"
  using assms by (auto simp: lawyerConfirm_def Let_def split: if_splits)

lemma after_cases:
  "after E s tx = s
   \<or> (\<exists>sender now ttl cl ext inputProof i. createContract E s sender now ttl cl ext inputProof = Inr (after E s tx, i))
   \<or> (\<exists>sender now i. clientApprove s sender now i = Inr (after E s tx))
   \<or> (\<exists>sender now i. lawyerConfirm s sender now i = Inr (after E s tx))"
proof -
  obtain sender now c where tx: "tx = (sender, now, c)" by (cases tx) auto
  show ?thesis
    unfolding tx after_def
    by (cases c) (auto split: sum.splits prod.splits)
qed

lemma reachable_run: "reachable E s \<Longrightarrow> reachable E (run E s txs)"
  by (induction txs arbitrary: s) (auto intro: reachable_step)

lemma word_less_plus1:
  fixes n :: "'a::len word"
  assumes "n \<noteq> - 1"
  shows "(i < n + 1) = (i < n \<or> i = n)"
proof -
  have "1 + n \<noteq> 0" using assms by (simp add: add_eq_0_iff)
  then have "unat (n + 1) = Suc (unat n)"
    by (simp add: unatSuc add.commute)
  then show ?thesis
    by (auto simp: word_less_nat_alt word_unat_eq_iff)
qed

subsection \<open>Ids and the party indexes\<close>

text \<open>The ids handed out so far, in the order in which they were assigned.\<close>

definition ids_upto :: "uint256 \<Rightarrow> uint256 list" where
  "ids_upto n = map of_nat [0..<unat n]"

lemma ids_upto_plus1: "n \<noteq> - 1 \<Longrightarrow> ids_upto (n + 1) = ids_upto n @ [n]"
proof -
  assume "n \<noteq> - 1"
  then have "1 + n \<noteq> 0" by (simp add: add_eq_0_iff)
  then have "unat (n + 1) = Suc (unat n)" by (simp add: unatSuc add.commute)
  then show ?thesis by (simp add: ids_upto_def)
qed

lemma unat_of_nat_below:
  fixes n :: "'a::len word"
  assumes "k < unat n"
  shows "unat (of_nat k :: 'a word) = k"
proof -
  have "unat n < 2 ^ LENGTH('a)" by (rule unsigned_less)
  with assms have "k < 2 ^ LENGTH('a)" by (rule less_trans)
  then show ?thesis by (rule of_nat_inverse [OF refl])
qed

lemma set_ids_upto: "set (ids_upto n) = {i. i < n}"
proof (rule set_eqI)
  fix i :: uint256
  show "i \<in> set (ids_upto n) \<longleftrightarrow> i \<in> {i. i < n}"
  proof
    assume "i \<in> set (ids_upto n)"
    then obtain k where k: "k < unat n" "i = of_nat k" by (auto simp: ids_upto_def)
    from k have "unat i = k" by (simp add: unat_of_nat_below)
    with k show "i \<in> {i. i < n}" by (simp add: word_less_nat_alt)
  next
    assume "i \<in> {i. i < n}"
    then have "unat i < unat n" by (simp add: word_less_nat_alt)
    moreover have "i = of_nat (unat i)" by simp
    ultimately show "i \<in> set (ids_upto n)" unfolding ids_upto_def
      by (metis (no_types, lifting) atLeastLessThan_iff image_eqI le0 set_map set_upt)
  qed
qed

lemma distinct_ids_upto: "distinct (ids_upto n)"
proof -
  have "inj_on (of_nat :: nat \<Rightarrow> uint256) {0..<unat n}"
  proof (rule inj_onI)
    fix x y assume a: "x \<in> {0..<unat n}" "y \<in> {0..<unat n}" "(of_nat x :: uint256) = of_nat y"
    from a have "x < unat n" "y < unat n" by simp_all
    then have "unat (of_nat x :: uint256) = x" "unat (of_nat y :: uint256) = y"
      by (simp_all add: unat_of_nat_below [of _ n])
    with a(3) show "x = y" by metis
  qed
  then show ?thesis by (simp add: ids_upto_def distinct_map)
qed

lemma sorted_ids_upto: "sorted_wrt (<) (ids_upto n)"
proof -
  have "\<And>x y. x < y \<Longrightarrow> y < unat n \<Longrightarrow> (of_nat x :: uint256) < of_nat y"
  proof -
    fix x y assume a: "x < y" "y < unat n"
    from a have "unat (of_nat x :: uint256) = x" "unat (of_nat y :: uint256) = y"
      by (simp_all add: unat_of_nat_below [of _ n])
    with a show "(of_nat x :: uint256) < of_nat y" by (simp add: word_less_nat_alt)
  qed
  then show ?thesis
    by (simp add: ids_upto_def sorted_wrt_map sorted_wrt_iff_nth_less)
qed

definition index_inv :: "LawVault \<Rightarrow> bool" where
  "index_inv s \<longleftrightarrow>
     (\<forall>i. exists (contracts s i) = (i < totalContracts s)) \<and>
     (\<forall>c. clientContracts s c =
            filter (\<lambda>i. client (contracts s i) = c) (ids_upto (totalContracts s))) \<and>
     (\<forall>l. lawyerContracts s l =
            filter (\<lambda>i. lawyer (contracts s i) = l) (ids_upto (totalContracts s)))"

lemma index_inv_init: "index_inv init_vault"
  by (simp add: index_inv_def init_vault_def ids_upto_def zero_Contract_def)

lemma index_inv_create:
  assumes inv: "index_inv s" and ok: "createContract E s sender now ttl cl ext inputProof = Inr (s', i)"
  shows "index_inv s'"
proof -
  from createContract_Inr [OF ok] obtain h where
    g: "totalContracts s \<noteq> - 1" and
    s': "s' = s \<lparr> contracts := (contracts s) (totalContracts s :=
                           \<lparr> id_f = totalContracts s, title = ttl,
                             encryptedContent = h,
                             lawyer = sender, client = cl,
                             status = PendingClientApproval,
                             createdAt = now, clientApprovedAt = 0,
                             lawyerConfirmedAt = 0, exists = True \<rparr>),
                         clientContracts := (clientContracts s)
                           (cl := clientContracts s cl @ [totalContracts s]),
                         lawyerContracts := (lawyerContracts s)
                           (sender := lawyerContracts s sender @ [totalContracts s]),
                         totalContracts := totalContracts s + 1,
                         acl := insert (h, self_address E) (acl s),
                         events := events s @ [ContractCreated (totalContracts s) sender cl ttl now] \<rparr>"
    by blast
  let ?n = "totalContracts s"
  have notin: "?n \<notin> set (ids_upto ?n)" by (simp add: set_ids_upto)
  have fil: "\<And>P nc. filter (\<lambda>i. P (if i = ?n then nc else contracts s i)) (ids_upto ?n) =
              filter (\<lambda>i. P (contracts s i)) (ids_upto ?n)"
    by (rule filter_cong) (use notin in auto)
  from inv have e: "\<And>i. exists (contracts s i) = (i < ?n)"
    and c: "\<And>c. clientContracts s c = filter (\<lambda>i. client (contracts s i) = c) (ids_upto ?n)"
    and l: "\<And>l. lawyerContracts s l = filter (\<lambda>i. lawyer (contracts s i) = l) (ids_upto ?n)"
    by (simp_all add: index_inv_def)
  show ?thesis
    unfolding index_inv_def s'
    using g
    by (auto simp add: ids_upto_plus1 word_less_plus1 e c l set_ids_upto intro!: filter_cong)
qed

lemma index_inv_approve:
  assumes inv: "index_inv s" and ok: "clientApprove s sender now i = Inr s'"
  shows "index_inv s'"
proof -
  from clientApprove_Inr [OF ok] have ex: "exists (contracts s i)" and
    s': "s' = s \<lparr> contracts := (contracts s) (i :=
                        (contracts s i) \<lparr> status := PendingLawyerFinalConfirmation,
                                       clientApprovedAt := now \<rparr>),
                      events := events s @ [ClientApproved i sender now] \<rparr>" by blast+
  have "\<And>j. exists (contracts s' j) = exists (contracts s j)"
       "\<And>j. client (contracts s' j) = client (contracts s j)"
       "\<And>j. lawyer (contracts s' j) = lawyer (contracts s j)"
       "totalContracts s' = totalContracts s" "clientContracts s' = clientContracts s"
       "lawyerContracts s' = lawyerContracts s"
    by (simp_all add: s')
  with inv show ?thesis by (simp add: index_inv_def)
qed

lemma index_inv_confirm:
  assumes inv: "index_inv s" and ok: "lawyerConfirm s sender now i = Inr s'"
  shows "index_inv s'"
proof -
  from lawyerConfirm_Inr [OF ok] have
    s': "s' = s \<lparr> contracts := (contracts s) (i :=
                        (contracts s i) \<lparr> status := Completed, lawyerConfirmedAt := now \<rparr>),
                      acl := insert (encryptedContent (contracts s i), client (contracts s i))
                               (insert (encryptedContent (contracts s i), lawyer (contracts s i))
                                  (acl s)),
                      events := events s @ [LawyerConfirmed i sender now] \<rparr>" by blast
  have "\<And>j. exists (contracts s' j) = exists (contracts s j)"
       "\<And>j. client (contracts s' j) = client (contracts s j)"
       "\<And>j. lawyer (contracts s' j) = lawyer (contracts s j)"
       "totalContracts s' = totalContracts s" "clientContracts s' = clientContracts s"
       "lawyerContracts s' = lawyerContracts s"
    by (simp_all add: s')
  with inv show ?thesis by (simp add: index_inv_def)
qed

lemma index_inv_after: "index_inv s \<Longrightarrow> index_inv (after E s tx)"
  using after_cases [of E s tx]
  by (auto intro: index_inv_create index_inv_approve index_inv_confirm)

lemma reachable_index_inv: "reachable E s \<Longrightarrow> index_inv s"
  by (induction rule: reachable.induct) (auto intro: index_inv_init index_inv_after)

subsection \<open>Access grants\<close>

text \<open>
  A record's parties hold the grant when the pair of its ciphertext handle with the lawyer
  and the pair with the client are both in the access-control list.
\<close>

definition granted :: "LawVault \<Rightarrow> uint256 \<Rightarrow> bool" where
  "granted s i \<longleftrightarrow>
     (encryptedContent (contracts s i), lawyer (contracts s i)) \<in> acl s \<and>
     (encryptedContent (contracts s i), client (contracts s i)) \<in> acl s"

definition acl_inv :: "fhe_env \<Rightarrow> LawVault \<Rightarrow> bool" where
  "acl_inv E s \<longleftrightarrow>
     (\<forall>i. exists (contracts s i) \<longrightarrow> lawyer (contracts s i) \<noteq> client (contracts s i)) \<and>
     (\<forall>i. exists (contracts s i) \<and> status (contracts s i) = Completed \<longrightarrow> granted s i) \<and>
     (\<forall>h a. (h, a) \<in> acl s \<longrightarrow>
        (a = self_address E \<and> (\<exists>i. exists (contracts s i) \<and> encryptedContent (contracts s i) = h)) \<or>
        (\<exists>i. exists (contracts s i) \<and> status (contracts s i) = Completed \<and>
             encryptedContent (contracts s i) = h \<and>
             (a = lawyer (contracts s i) \<or> a = client (contracts s i))))"

lemma acl_inv_init: "acl_inv E init_vault"
  by (simp add: acl_inv_def init_vault_def zero_Contract_def)

lemma acl_inv_create:
  assumes inv: "acl_inv E s" and ix: "index_inv s"
    and ok: "createContract E s sender now ttl cl ext inputProof = Inr (s', i)"
  shows "acl_inv E s'"
proof -
  let ?n = "totalContracts s"
  from createContract_Inr [OF ok] obtain h where
    g: "cl \<noteq> sender" and
    c: "contracts s' = (contracts s) (?n :=
                           \<lparr> id_f = ?n, title = ttl,
                             encryptedContent = h,
                             lawyer = sender, client = cl,
                             status = PendingClientApproval,
                             createdAt = now, clientApprovedAt = 0,
                             lawyerConfirmedAt = 0, exists = True \<rparr>)" and
    a: "acl s' = insert (h, self_address E) (acl s)"
    by auto
  from ix have fresh: "\<not> exists (contracts s ?n)" by (simp add: index_inv_def)
  have old: "\<And>j. exists (contracts s j) \<Longrightarrow> contracts s' j = contracts s j"
    using fresh by (auto simp: c)
  have new: "exists (contracts s' ?n)" "encryptedContent (contracts s' ?n) = h"
    by (simp_all add: c)
  have 1: "\<forall>j. exists (contracts s' j) \<longrightarrow> lawyer (contracts s' j) \<noteq> client (contracts s' j)"
    using inv g by (auto simp: c acl_inv_def)
  have 2: "\<forall>j. exists (contracts s' j) \<and> status (contracts s' j) = Completed \<longrightarrow> granted s' j"
    using inv by (auto simp: c a acl_inv_def granted_def)
  have 3: "\<forall>h' a'. (h', a') \<in> acl s' \<longrightarrow>
        (a' = self_address E \<and> (\<exists>j. exists (contracts s' j) \<and> encryptedContent (contracts s' j) = h')) \<or>
        (\<exists>j. exists (contracts s' j) \<and> status (contracts s' j) = Completed \<and>
             encryptedContent (contracts s' j) = h' \<and>
             (a' = lawyer (contracts s' j) \<or> a' = client (contracts s' j)))"
  proof (intro allI impI)
    fix h' a' assume m: "(h', a') \<in> acl s'"
    show "(a' = self_address E \<and> (\<exists>j. exists (contracts s' j) \<and> encryptedContent (contracts s' j) = h')) \<or>
        (\<exists>j. exists (contracts s' j) \<and> status (contracts s' j) = Completed \<and>
             encryptedContent (contracts s' j) = h' \<and>
             (a' = lawyer (contracts s' j) \<or> a' = client (contracts s' j)))"
    proof (cases "(h', a') = (h, self_address E)")
      case True
      with new show ?thesis by blast
    next
      case False
      with m a have "(h', a') \<in> acl s" by auto
      with inv have "(a' = self_address E \<and> (\<exists>j. exists (contracts s j) \<and> encryptedContent (contracts s j) = h')) \<or>
        (\<exists>j. exists (contracts s j) \<and> status (contracts s j) = Completed \<and>
             encryptedContent (contracts s j) = h' \<and>
             (a' = lawyer (contracts s j) \<or> a' = client (contracts s j)))"
        unfolding acl_inv_def by blast
      then show ?thesis using old by metis
    qed
  qed
  from 1 2 3 show ?thesis unfolding acl_inv_def by blast
qed

lemma acl_inv_approve:
  assumes inv: "acl_inv E s" and ok: "clientApprove s sender now i = Inr s'"
  shows "acl_inv E s'"
proof -
  from clientApprove_Inr [OF ok] have
    st: "status (contracts s i) = PendingClientApproval" and
    c: "contracts s' = (contracts s) (i :=
                        (contracts s i) \<lparr> status := PendingLawyerFinalConfirmation,
                                       clientApprovedAt := now \<rparr>)" and
    a: "acl s' = acl s"
    by auto
  have same: "\<And>j. exists (contracts s' j) = exists (contracts s j)"
     "\<And>j. lawyer (contracts s' j) = lawyer (contracts s j)"
     "\<And>j. client (contracts s' j) = client (contracts s j)"
     "\<And>j. encryptedContent (contracts s' j) = encryptedContent (contracts s j)"
     "\<And>j. (status (contracts s' j) = Completed) = (status (contracts s j) = Completed)"
    using st by (auto simp: c)
  from inv show ?thesis
    unfolding acl_inv_def granted_def same a .
qed

lemma acl_inv_confirm:
  assumes inv: "acl_inv E s" and ok: "lawyerConfirm s sender now i = Inr s'"
  shows "acl_inv E s'"
proof -
  from lawyerConfirm_Inr [OF ok] have
    ex: "exists (contracts s i)" and
    c: "contracts s' = (contracts s) (i :=
                        (contracts s i) \<lparr> status := Completed, lawyerConfirmedAt := now \<rparr>)" and
    a: "acl s' = insert (encryptedContent (contracts s i), client (contracts s i))
                               (insert (encryptedContent (contracts s i), lawyer (contracts s i))
                                  (acl s))"
    by auto
  have same: "\<And>j. exists (contracts s' j) = exists (contracts s j)"
     "\<And>j. lawyer (contracts s' j) = lawyer (contracts s j)"
     "\<And>j. client (contracts s' j) = client (contracts s j)"
     "\<And>j. encryptedContent (contracts s' j) = encryptedContent (contracts s j)"
     "\<And>j. (status (contracts s' j) = Completed) = (j = i \<or> status (contracts s j) = Completed)"
    by (auto simp: c)
  have 1: "\<forall>j. exists (contracts s j) \<longrightarrow> lawyer (contracts s j) \<noteq> client (contracts s j)"
    using inv by (simp add: acl_inv_def)
  have 2: "\<forall>j. exists (contracts s j) \<and> (j = i \<or> status (contracts s j) = Completed) \<longrightarrow>
     (encryptedContent (contracts s j), lawyer (contracts s j)) \<in> acl s' \<and>
     (encryptedContent (contracts s j), client (contracts s j)) \<in> acl s'"
    using inv by (auto simp: a acl_inv_def granted_def)
  have 3: "\<forall>h' a'. (h', a') \<in> acl s' \<longrightarrow>
        (a' = self_address E \<and> (\<exists>j. exists (contracts s j) \<and> encryptedContent (contracts s j) = h')) \<or>
        (\<exists>j. exists (contracts s j) \<and> (j = i \<or> status (contracts s j) = Completed) \<and>
             encryptedContent (contracts s j) = h' \<and>
             (a' = lawyer (contracts s j) \<or> a' = client (contracts s j)))"
  proof (intro allI impI)
    fix h' a' assume m: "(h', a') \<in> acl s'"
    show "(a' = self_address E \<and> (\<exists>j. exists (contracts s j) \<and> encryptedContent (contracts s j) = h')) \<or>
        (\<exists>j. exists (contracts s j) \<and> (j = i \<or> status (contracts s j) = Completed) \<and>
             encryptedContent (contracts s j) = h' \<and>
             (a' = lawyer (contracts s j) \<or> a' = client (contracts s j)))"
    proof (cases "(h', a') \<in> acl s")
      case True
      with inv show ?thesis unfolding acl_inv_def by blast
    next
      case False
      with m a have "h' = encryptedContent (contracts s i) \<and>
         (a' = lawyer (contracts s i) \<or> a' = client (contracts s i))" by auto
      with ex show ?thesis by blast
    qed
  qed
  from 1 2 3 show ?thesis unfolding acl_inv_def granted_def same by blast
qed

lemma inv_after:
  assumes "index_inv s \<and> acl_inv E s"
  shows "index_inv (after E s tx) \<and> acl_inv E (after E s tx)"
  using after_cases [of E s tx] assms
  by (auto intro: acl_inv_create acl_inv_approve acl_inv_confirm index_inv_after)

lemma reachable_acl_inv: "reachable E s \<Longrightarrow> acl_inv E s"
proof -
  assume "reachable E s"
  then have "index_inv s \<and> acl_inv E s"
    by (induction rule: reachable.induct) (auto simp: index_inv_init acl_inv_init inv_after)
  then show ?thesis ..
qed

subsection \<open>A concrete run\<close>

text \<open>
  Scenario A of the specification on an FHE library that accepts every input proof and
  returns the external handle: the lawyer \<open>0x11\<close> creates the record ``NDA'' for the
  client \<open>0x22\<close>, the client approves, the lawyer confirms. The three states it passes
  through are the concrete inputs of the theorems below.
\<close>

definition accepting_env :: fhe_env where
  "accepting_env = \<lparr> self_address = 0xCAFE, fromExternal = (\<lambda>h p a. Some h) \<rparr>"

definition scenario_A :: "(address \<times> uint256 \<times> call) list" where
  "scenario_A = [(0x11, 1000, Call_createContract ''NDA'' 0x22 0x5EED []),
                 (0x22, 1001, Call_clientApprove 0),
                 (0x11, 1002, Call_lawyerConfirm 0)]"

definition vault_created :: LawVault where
  "vault_created = run accepting_env init_vault (take 1 scenario_A)"

definition vault_approved :: LawVault where
  "vault_approved = run accepting_env init_vault (take 2 scenario_A)"

definition vault_completed :: LawVault where
  "vault_completed = run accepting_env init_vault scenario_A"

lemmas eval_defs = scenario_A_def after_def createContract_def clientApprove_def lawyerConfirm_def
  init_vault_def accepting_env_def Let_def zero_Contract_def

lemma vault_created_eq: "vault_created =
  \<lparr> contracts = (\<lambda>_. zero_Contract)(0 := \<lparr> id_f = 0, title = ''NDA'', encryptedContent = 0x5EED,
         lawyer = 0x11, client = 0x22, status = PendingClientApproval, createdAt = 1000,
         clientApprovedAt = 0, lawyerConfirmedAt = 0, exists = True \<rparr>),
     clientContracts = (\<lambda>_. [])(0x22 := [0]),
     lawyerContracts = (\<lambda>_. [])(0x11 := [0]), totalContracts = 1,
     acl = {(0x5EED, 0xCAFE)},
     events = [ContractCreated 0 0x11 0x22 ''NDA'' 1000] \<rparr>"
  by (simp add: vault_created_def eval_defs)

lemma vault_approved_eq: "vault_approved =
  \<lparr> contracts = (\<lambda>_. zero_Contract)(0 := \<lparr> id_f = 0, title = ''NDA'', encryptedContent = 0x5EED,
         lawyer = 0x11, client = 0x22, status = PendingLawyerFinalConfirmation, createdAt = 1000,
         clientApprovedAt = 1001, lawyerConfirmedAt = 0, exists = True \<rparr>),
     clientContracts = (\<lambda>_. [])(0x22 := [0]),
     lawyerContracts = (\<lambda>_. [])(0x11 := [0]), totalContracts = 1,
     acl = {(0x5EED, 0xCAFE)},
     events = [ContractCreated 0 0x11 0x22 ''NDA'' 1000, ClientApproved 0 0x22 1001] \<rparr>"
  by (simp add: vault_approved_def eval_defs)

lemma vault_completed_eq: "vault_completed =
  \<lparr> contracts = (\<lambda>_. zero_Contract)(0 := \<lparr> id_f = 0, title = ''NDA'', encryptedContent = 0x5EED,
         lawyer = 0x11, client = 0x22, status = Completed, createdAt = 1000,
         clientApprovedAt = 1001, lawyerConfirmedAt = 1002, exists = True \<rparr>),
     clientContracts = (\<lambda>_. [])(0x22 := [0]),
     lawyerContracts = (\<lambda>_. [])(0x11 := [0]), totalContracts = 1,
     acl = {(0x5EED, 0x22), (0x5EED, 0x11), (0x5EED, 0xCAFE)},
     events = [ContractCreated 0 0x11 0x22 ''NDA'' 1000, ClientApproved 0 0x22 1001,
               LawyerConfirmed 0 0x11 1002] \<rparr>"
  by (simp add: vault_completed_def eval_defs)

lemma scenario_steps:
  "createContract accepting_env init_vault 0x11 1000 ''NDA'' 0x22 0x5EED [] = Inr (vault_created, 0)"
  "clientApprove vault_created 0x22 1001 0 = Inr vault_approved"
  "lawyerConfirm vault_approved 0x11 1002 0 = Inr vault_completed"
proof -
  show "createContract accepting_env init_vault 0x11 1000 ''NDA'' 0x22 0x5EED [] = Inr (vault_created, 0)"
    by (simp add: vault_created_eq) (simp add: eval_defs)
  show "clientApprove vault_created 0x22 1001 0 = Inr vault_approved"
    by (simp add: vault_created_eq vault_approved_eq) (simp add: eval_defs)
  show "lawyerConfirm vault_approved 0x11 1002 0 = Inr vault_completed"
    by (simp add: vault_completed_eq vault_approved_eq) (simp add: eval_defs insert_commute)
qed

lemma reachable_vaults:
  "reachable accepting_env init_vault" "reachable accepting_env vault_created"
  "reachable accepting_env vault_approved" "reachable accepting_env vault_completed"
  unfolding vault_created_def vault_approved_def vault_completed_def
  by (intro reachable_run reachable_init)+

section \<open>Properties of the contract\<close>

subsection \<open>The three transitions\<close>

text \<open>
  Claim C1. The record state machine has exactly three transitions. \<open>createContract\<close>
  succeeds only when the client differs from the caller, is not the zero address and the
  title is non-empty; it then creates, under the id \<open>totalContracts\<close>, which no record
  had before, a record in status \<open>PendingClientApproval\<close> whose lawyer is the caller
  (and, given these guards, it succeeds whenever the counter does not overflow and the FHE
  library accepts the input). \<open>clientApprove\<close> succeeds exactly when the record exists,
  the caller is its client and its status is \<open>PendingClientApproval\<close>, and then the
  status is \<open>PendingLawyerFinalConfirmation\<close> and \<open>clientApprovedAt\<close> is the block's
  time. \<open>lawyerConfirm\<close> succeeds exactly when the record exists, the caller is its
  lawyer and its status is \<open>PendingLawyerFinalConfirmation\<close>, and then the status is
  \<open>Completed\<close> and \<open>lawyerConfirmedAt\<close> is the block's time. No other call changes
  the state.
\<close>

theorem record_state_machine:
  assumes "reachable E s"
  shows
   "(\<forall>s' i. createContract E s sender now ttl cl ext inputProof = Inr (s', i) \<longrightarrow>
        cl \<noteq> sender \<and> cl \<noteq> 0 \<and> ttl \<noteq> [] \<and>
        i = totalContracts s \<and> \<not> exists (contracts s i) \<and>
        (\<exists>h. fromExternal E ext inputProof sender = Some h \<and>
           contracts s' i = \<lparr> id_f = i, title = ttl, encryptedContent = h, lawyer = sender,
             client = cl, status = PendingClientApproval, createdAt = now,
             clientApprovedAt = 0, lawyerConfirmedAt = 0, exists = True \<rparr>))
    \<and> (cl \<noteq> sender \<and> cl \<noteq> 0 \<and> ttl \<noteq> [] \<and> totalContracts s \<noteq> - 1 \<and>
         fromExternal E ext inputProof sender \<noteq> None \<longrightarrow>
          (\<exists>s'. createContract E s sender now ttl cl ext inputProof = Inr (s', totalContracts s)))
    \<and> ((\<exists>s'. clientApprove s sender now j = Inr s') \<longleftrightarrow>
          exists (contracts s j) \<and> client (contracts s j) = sender \<and>
          status (contracts s j) = PendingClientApproval)
    \<and> (\<forall>s'. clientApprove s sender now j = Inr s' \<longrightarrow>
          status (contracts s' j) = PendingLawyerFinalConfirmation \<and>
          clientApprovedAt (contracts s' j) = now)
    \<and> ((\<exists>s'. lawyerConfirm s sender now j = Inr s') \<longleftrightarrow>
          exists (contracts s j) \<and> lawyer (contracts s j) = sender \<and>
          status (contracts s j) = PendingLawyerFinalConfirmation)
    \<and> (\<forall>s'. lawyerConfirm s sender now j = Inr s' \<longrightarrow>
          status (contracts s' j) = Completed \<and> lawyerConfirmedAt (contracts s' j) = now)
    \<and> (\<forall>s' r. exec E s sender now c = Inr (s', r) \<longrightarrow>
          s' = s \<or> (\<exists>t a x p. c = Call_createContract t a x p) \<or>
          (\<exists>k. c = Call_clientApprove k) \<or> (\<exists>k. c = Call_lawyerConfirm k))"
proof -
  from assms have "index_inv s" by (rule reachable_index_inv)
  then have fresh: "\<not> exists (contracts s (totalContracts s))" by (simp add: index_inv_def)
  have 1: "\<forall>s' i. createContract E s sender now ttl cl ext inputProof = Inr (s', i) \<longrightarrow>
        cl \<noteq> sender \<and> cl \<noteq> 0 \<and> ttl \<noteq> [] \<and>
        i = totalContracts s \<and> \<not> exists (contracts s i) \<and>
        (\<exists>h. fromExternal E ext inputProof sender = Some h \<and>
           contracts s' i = \<lparr> id_f = i, title = ttl, encryptedContent = h, lawyer = sender,
             client = cl, status = PendingClientApproval, createdAt = now,
             clientApprovedAt = 0, lawyerConfirmedAt = 0, exists = True \<rparr>)"
    using fresh by (auto dest!: createContract_Inr)
  have 2: "cl \<noteq> sender \<and> cl \<noteq> 0 \<and> ttl \<noteq> [] \<and> totalContracts s \<noteq> - 1 \<and>
         fromExternal E ext inputProof sender \<noteq> None \<longrightarrow>
          (\<exists>s'. createContract E s sender now ttl cl ext inputProof = Inr (s', totalContracts s))"
    by (auto simp: createContract_def Let_def)
  have 3: "(\<exists>s'. clientApprove s sender now j = Inr s') \<longleftrightarrow>
          exists (contracts s j) \<and> client (contracts s j) = sender \<and>
          status (contracts s j) = PendingClientApproval"
    by (auto simp: clientApprove_def Let_def)
  have 4: "\<forall>s'. clientApprove s sender now j = Inr s' \<longrightarrow>
          status (contracts s' j) = PendingLawyerFinalConfirmation \<and>
          clientApprovedAt (contracts s' j) = now"
    by (auto dest!: clientApprove_Inr)
  have 5: "(\<exists>s'. lawyerConfirm s sender now j = Inr s') \<longleftrightarrow>
          exists (contracts s j) \<and> lawyer (contracts s j) = sender \<and>
          status (contracts s j) = PendingLawyerFinalConfirmation"
    by (auto simp: lawyerConfirm_def Let_def)
  have 6: "\<forall>s'. lawyerConfirm s sender now j = Inr s' \<longrightarrow>
          status (contracts s' j) = Completed \<and> lawyerConfirmedAt (contracts s' j) = now"
    by (auto dest!: lawyerConfirm_Inr)
  have 7: "\<forall>s' r. exec E s sender now c = Inr (s', r) \<longrightarrow>
          s' = s \<or> (\<exists>t a x p. c = Call_createContract t a x p) \<or>
          (\<exists>k. c = Call_clientApprove k) \<or> (\<exists>k. c = Call_lawyerConfirm k)"
    by (cases c) (auto split: sum.splits prod.splits)
  from 1 2 3 4 5 6 7 show ?thesis by blast
qed

theorem record_state_machine_witness:
  "reachable accepting_env init_vault
   \<and> createContract accepting_env init_vault 0x11 1000 ''NDA'' 0x22 0x5EED [] = Inr (vault_created, 0)
   \<and> \<not> exists (contracts init_vault 0)
   \<and> status (contracts vault_created 0) = PendingClientApproval
   \<and> lawyer (contracts vault_created 0) = 0x11
   \<and> reachable accepting_env vault_created
   \<and> clientApprove vault_created 0x22 1001 0 = Inr vault_approved
   \<and> status (contracts vault_approved 0) = PendingLawyerFinalConfirmation
   \<and> clientApprovedAt (contracts vault_approved 0) = 1001
   \<and> reachable accepting_env vault_approved
   \<and> lawyerConfirm vault_approved 0x11 1002 0 = Inr vault_completed
   \<and> status (contracts vault_completed 0) = Completed
   \<and> lawyerConfirmedAt (contracts vault_completed 0) = 1002"
proof -
  note t1 = record_state_machine [OF reachable_vaults(1), THEN conjunct1, rule_format,
      OF scenario_steps(1)]
  note t2 = record_state_machine [OF reachable_vaults(2), THEN conjunct2, THEN conjunct2,
      THEN conjunct2, THEN conjunct1, rule_format, OF scenario_steps(2)]
  note t3 = record_state_machine [OF reachable_vaults(3), THEN conjunct2, THEN conjunct2,
      THEN conjunct2, THEN conjunct2, THEN conjunct2, THEN conjunct1, rule_format,
      OF scenario_steps(3)]
  from t1 have 1: "\<not> exists (contracts init_vault 0) \<and>
      status (contracts vault_created 0) = PendingClientApproval \<and>
      lawyer (contracts vault_created 0) = 0x11"
    by auto
  from 1 t2 t3 scenario_steps reachable_vaults show ?thesis by simp
qed

subsection \<open>Reading the ciphertext handle\<close>

text \<open>
  Claim C3. For an existing record, \<open>getEncryptedContent\<close> fails whenever the status is not
  \<open>Completed\<close>; once the status is \<open>Completed\<close> it succeeds exactly for the record's
  lawyer and its client, returning the stored handle, and fails with the authorization
  message for every other caller. It is a view: the call returns the state it was given.
\<close>

theorem getEncryptedContent_gating:
  assumes "exists (contracts s i)"
  shows
   "(status (contracts s i) \<noteq> Completed \<longrightarrow> (\<exists>e. getEncryptedContent s sender i = Inl e))
    \<and> (status (contracts s i) = Completed \<longrightarrow>
         ((\<exists>h. getEncryptedContent s sender i = Inr h) \<longleftrightarrow>
            (sender = lawyer (contracts s i) \<or> sender = client (contracts s i)))
       \<and> (sender = lawyer (contracts s i) \<or> sender = client (contracts s i) \<longrightarrow>
            getEncryptedContent s sender i = Inr (encryptedContent (contracts s i)))
       \<and> (sender \<noteq> lawyer (contracts s i) \<and> sender \<noteq> client (contracts s i) \<longrightarrow>
            getEncryptedContent s sender i =
              Inl (Require ''Only lawyer or client can access content'')))
    \<and> (\<forall>s' r. exec E s sender now (Call_getEncryptedContent i) = Inr (s', r) \<longrightarrow> s' = s)
    \<and> after E s (sender, now, Call_getEncryptedContent i) = s"
  using assms
  by (auto simp: getEncryptedContent_def Let_def after_def split: sum.splits)

theorem getEncryptedContent_gating_witness:
  "exists (contracts vault_approved 0)
   \<and> (\<exists>e. getEncryptedContent vault_approved 0x11 0 = Inl e)
   \<and> exists (contracts vault_completed 0)
   \<and> getEncryptedContent vault_completed 0x11 0 = Inr 0x5EED
   \<and> getEncryptedContent vault_completed 0x22 0 = Inr 0x5EED
   \<and> getEncryptedContent vault_completed 0x33 0 =
        Inl (Require ''Only lawyer or client can access content'')
   \<and> after accepting_env vault_completed (0x11, 2000, Call_getEncryptedContent 0) = vault_completed"
proof -
  have e1: "exists (contracts vault_approved 0)" by (simp add: vault_approved_eq)
  have e2: "exists (contracts vault_completed 0)" by (simp add: vault_completed_eq)
  have f: "status (contracts vault_approved 0) \<noteq> Completed"
    "status (contracts vault_completed 0) = Completed"
    "lawyer (contracts vault_completed 0) = 0x11" "client (contracts vault_completed 0) = 0x22"
    "encryptedContent (contracts vault_completed 0) = 0x5EED"
    by (simp_all add: vault_approved_eq vault_completed_eq)
  from getEncryptedContent_gating [OF e1, of "0x11"] f
  have 1: "\<exists>e. getEncryptedContent vault_approved 0x11 0 = Inl e" by simp
  from getEncryptedContent_gating [OF e2, of "0x11"] f
  have 2: "getEncryptedContent vault_completed 0x11 0 = Inr 0x5EED" by simp
  from getEncryptedContent_gating [OF e2, of "0x22"] f
  have 3: "getEncryptedContent vault_completed 0x22 0 = Inr 0x5EED" by simp
  from getEncryptedContent_gating [OF e2, of "0x33"] f
  have 4: "getEncryptedContent vault_completed 0x33 0 =
        Inl (Require ''Only lawyer or client can access content'')" by simp
  from getEncryptedContent_gating [OF e2, of "0x11" accepting_env 2000]
  have 5: "after accepting_env vault_completed (0x11, 2000, Call_getEncryptedContent 0) = vault_completed"
    by simp
  from e1 e2 1 2 3 4 5 show ?thesis by simp
qed

text \<open>
  Claim C9. \<open>getEncryptedContent\<close> checks existence first, then the status, then the
  caller: a record that does not exist gives ``Contract does not exist''; an existing record
  that is not \<open>Completed\<close> gives ``Contract must be completed to access content'' to every
  caller, so a caller who is neither the lawyer nor the client receives that failure and
  not the authorization failure.
\<close>

theorem getEncryptedContent_check_order:
  "(\<not> exists (contracts s i) \<longrightarrow>
      getEncryptedContent s sender i = Inl (Require ''Contract does not exist''))
   \<and> (exists (contracts s i) \<and> status (contracts s i) \<noteq> Completed \<longrightarrow>
      getEncryptedContent s sender i =
        Inl (Require ''Contract must be completed to access content''))
   \<and> (exists (contracts s i) \<and> status (contracts s i) \<noteq> Completed \<and>
       sender \<noteq> lawyer (contracts s i) \<and> sender \<noteq> client (contracts s i) \<longrightarrow>
      getEncryptedContent s sender i =
        Inl (Require ''Contract must be completed to access content'') \<and>
      getEncryptedContent s sender i \<noteq>
        Inl (Require ''Only lawyer or client can access content''))"
  by (simp add: getEncryptedContent_def Let_def)

theorem getEncryptedContent_check_order_witness:
  "exists (contracts vault_approved 0) \<and> status (contracts vault_approved 0) \<noteq> Completed
   \<and> 0x33 \<noteq> lawyer (contracts vault_approved 0) \<and> 0x33 \<noteq> client (contracts vault_approved 0)
   \<and> getEncryptedContent vault_approved 0x33 0 =
        Inl (Require ''Contract must be completed to access content'')
   \<and> \<not> exists (contracts vault_approved 7)
   \<and> getEncryptedContent vault_approved 0x33 7 = Inl (Require ''Contract does not exist'')"
proof -
  have f: "exists (contracts vault_approved 0)" "status (contracts vault_approved 0) \<noteq> Completed"
    "0x33 \<noteq> lawyer (contracts vault_approved 0)" "0x33 \<noteq> client (contracts vault_approved 0)"
    "\<not> exists (contracts vault_approved 7)"
    by (simp_all add: vault_approved_eq zero_Contract_def)
  with getEncryptedContent_check_order [of vault_approved 0 "0x33"]
    getEncryptedContent_check_order [of vault_approved 7 "0x33"]
  show ?thesis by simp
qed

subsection \<open>What approval and confirmation leave alone\<close>

text \<open>
  Claim C8. A successful \<open>clientApprove\<close> changes, in the addressed record, only \<open>status\<close>
  and \<open>clientApprovedAt\<close>; a successful \<open>lawyerConfirm\<close> only \<open>status\<close> and
  \<open>lawyerConfirmedAt\<close>. The record's id, title, ciphertext handle, lawyer, client,
  creation time, existence flag and other timestamp, every other record, both party
  indexes and the counter are unchanged. \<open>clientApprove\<close> leaves the access-control list
  as it was; \<open>lawyerConfirm\<close> adds exactly the two grants for the record's lawyer and
  client. Each appends its one event to the log.
\<close>

theorem approve_confirm_frame:
  "(\<forall>s'. clientApprove s sender now i = Inr s' \<longrightarrow>
       contracts s' i = (contracts s i) \<lparr> status := PendingLawyerFinalConfirmation,
                                          clientApprovedAt := now \<rparr>
     \<and> id_f (contracts s' i) = id_f (contracts s i)
     \<and> title (contracts s' i) = title (contracts s i)
     \<and> encryptedContent (contracts s' i) = encryptedContent (contracts s i)
     \<and> lawyer (contracts s' i) = lawyer (contracts s i)
     \<and> client (contracts s' i) = client (contracts s i)
     \<and> createdAt (contracts s' i) = createdAt (contracts s i)
     \<and> lawyerConfirmedAt (contracts s' i) = lawyerConfirmedAt (contracts s i)
     \<and> exists (contracts s' i) = exists (contracts s i)
     \<and> (\<forall>j. j \<noteq> i \<longrightarrow> contracts s' j = contracts s j)
     \<and> clientContracts s' = clientContracts s
     \<and> lawyerContracts s' = lawyerContracts s
     \<and> totalContracts s' = totalContracts s
     \<and> acl s' = acl s
     \<and> events s' = events s @ [ClientApproved i sender now])
   \<and> (\<forall>s'. lawyerConfirm s sender now i = Inr s' \<longrightarrow>
       contracts s' i = (contracts s i) \<lparr> status := Completed, lawyerConfirmedAt := now \<rparr>
     \<and> id_f (contracts s' i) = id_f (contracts s i)
     \<and> title (contracts s' i) = title (contracts s i)
     \<and> encryptedContent (contracts s' i) = encryptedContent (contracts s i)
     \<and> lawyer (contracts s' i) = lawyer (contracts s i)
     \<and> client (contracts s' i) = client (contracts s i)
     \<and> createdAt (contracts s' i) = createdAt (contracts s i)
     \<and> clientApprovedAt (contracts s' i) = clientApprovedAt (contracts s i)
     \<and> exists (contracts s' i) = exists (contracts s i)
     \<and> (\<forall>j. j \<noteq> i \<longrightarrow> contracts s' j = contracts s j)
     \<and> clientContracts s' = clientContracts s
     \<and> lawyerContracts s' = lawyerContracts s
     \<and> totalContracts s' = totalContracts s
     \<and> acl s' = acl s \<union> {(encryptedContent (contracts s i), lawyer (contracts s i)),
                          (encryptedContent (contracts s i), client (contracts s i))}
     \<and> events s' = events s @ [LawyerConfirmed i sender now])"
  by (intro conjI allI impI; (drule clientApprove_Inr | drule lawyerConfirm_Inr); auto)

theorem approve_confirm_frame_witness:
  "clientApprove vault_created 0x22 1001 0 = Inr vault_approved
   \<and> title (contracts vault_approved 0) = title (contracts vault_created 0)
   \<and> contracts vault_approved 5 = contracts vault_created 5
   \<and> acl vault_approved = acl vault_created
   \<and> lawyerConfirm vault_approved 0x11 1002 0 = Inr vault_completed
   \<and> clientApprovedAt (contracts vault_completed 0) = clientApprovedAt (contracts vault_approved 0)
   \<and> contracts vault_completed 5 = contracts vault_approved 5
   \<and> clientContracts vault_completed = clientContracts vault_approved"
proof -
  note t1 = approve_confirm_frame [THEN conjunct1, rule_format, OF scenario_steps(2)]
  note t2 = approve_confirm_frame [THEN conjunct2, rule_format, OF scenario_steps(3)]
  have n: "(5 :: uint256) \<noteq> 0" by simp
  from t1 t2 scenario_steps n show ?thesis by simp
qed

subsection \<open>The status only moves forward\<close>

lemma after_status_step:
  assumes ix: "index_inv s" and ex: "exists (contracts s i)"
  shows "exists (contracts (after E s tx) i) \<and>
         (status (contracts (after E s tx) i) = status (contracts s i) \<or>
          rank (status (contracts (after E s tx) i)) = Suc (rank (status (contracts s i))))"
proof -
  from ix have fresh: "\<not> exists (contracts s (totalContracts s))" by (simp add: index_inv_def)
  with ex have ne: "i \<noteq> totalContracts s" by auto
  from after_cases [of E s tx] show ?thesis
  proof (elim disjE exE)
    assume "after E s tx = s" with ex show ?thesis by simp
  next
    fix sender now ttl cl ext inputProof k
    assume "createContract E s sender now ttl cl ext inputProof = Inr (after E s tx, k)"
    from createContract_Inr [OF this] ne ex show ?thesis by auto
  next
    fix sender now k
    assume "clientApprove s sender now k = Inr (after E s tx)"
    from clientApprove_Inr [OF this] ex show ?thesis by (cases "k = i") auto
  next
    fix sender now k
    assume "lawyerConfirm s sender now k = Inr (after E s tx)"
    from lawyerConfirm_Inr [OF this] ex show ?thesis by (cases "k = i") auto
  qed
qed

lemma run_status_mono:
  assumes "index_inv s" and "exists (contracts s i)"
  shows "exists (contracts (run E s txs) i) \<and>
         rank (status (contracts s i)) \<le> rank (status (contracts (run E s txs) i))"
  using assms
proof (induction txs arbitrary: s)
  case Nil
  then show ?case by simp
next
  case (Cons tx txs)
  from after_status_step [OF Cons.prems, of E tx]
  have st: "exists (contracts (after E s tx) i)"
    "rank (status (contracts s i)) \<le> rank (status (contracts (after E s tx) i))"
    by auto
  from Cons.prems have "index_inv (after E s tx)" by (simp add: index_inv_after)
  from Cons.IH [OF this st(1)] st(2) show ?case by simp
qed

text \<open>
  Claim C5. For a record of a reachable state, one transaction leaves the status where it
  is or moves it to the next status of the order \<open>PendingClientApproval\<close>,
  \<open>PendingLawyerFinalConfirmation\<close>, \<open>Completed\<close>, so that over any sequence of
  transactions the status never goes back and never skips. \<open>clientApprove\<close> fails on a
  record that is not in \<open>PendingClientApproval\<close>, \<open>lawyerConfirm\<close> on one that is not in
  \<open>PendingLawyerFinalConfirmation\<close>, and \<open>createContract\<close> never touches an existing
  record. A call that fails leaves the whole state, hence every field of the record, as it
  was.
\<close>

theorem status_only_moves_forward:
  assumes "reachable E s" and "exists (contracts s i)"
  shows
   "(status (contracts (after E s tx) i) = status (contracts s i) \<or>
      rank (status (contracts (after E s tx) i)) = Suc (rank (status (contracts s i))))
    \<and> rank (status (contracts s i)) \<le> rank (status (contracts (run E s txs) i))
    \<and> (status (contracts s i) \<noteq> PendingClientApproval \<longrightarrow>
          (\<exists>e. clientApprove s sender now i = Inl e))
    \<and> (status (contracts s i) \<noteq> PendingLawyerFinalConfirmation \<longrightarrow>
          (\<exists>e. lawyerConfirm s sender now i = Inl e))
    \<and> (\<forall>s' k. createContract E s sender now ttl cl ext inputProof = Inr (s', k) \<longrightarrow>
          k \<noteq> i \<and> contracts s' i = contracts s i)
    \<and> (\<forall>e. exec E s sender now c = Inl e \<longrightarrow> after E s (sender, now, c) = s)"
proof -
  from assms(1) have ix: "index_inv s" by (rule reachable_index_inv)
  then have fresh: "\<not> exists (contracts s (totalContracts s))" by (simp add: index_inv_def)
  with assms(2) have ne: "i \<noteq> totalContracts s" by auto
  have 1: "status (contracts (after E s tx) i) = status (contracts s i) \<or>
      rank (status (contracts (after E s tx) i)) = Suc (rank (status (contracts s i)))"
    using after_status_step [OF ix assms(2)] by blast
  have 2: "rank (status (contracts s i)) \<le> rank (status (contracts (run E s txs) i))"
    using run_status_mono [OF ix assms(2)] by blast
  have 3: "status (contracts s i) \<noteq> PendingClientApproval \<longrightarrow>
          (\<exists>e. clientApprove s sender now i = Inl e)"
    by (simp add: clientApprove_def Let_def)
  have 4: "status (contracts s i) \<noteq> PendingLawyerFinalConfirmation \<longrightarrow>
          (\<exists>e. lawyerConfirm s sender now i = Inl e)"
    by (simp add: lawyerConfirm_def Let_def)
  have 5: "\<forall>s' k. createContract E s sender now ttl cl ext inputProof = Inr (s', k) \<longrightarrow>
          k \<noteq> i \<and> contracts s' i = contracts s i"
    using ne by (auto dest!: createContract_Inr)
  have 6: "\<forall>e. exec E s sender now c = Inl e \<longrightarrow> after E s (sender, now, c) = s"
    by (simp add: after_def)
  from 1 2 3 4 5 6 show ?thesis by blast
qed

theorem status_only_moves_forward_witness:
  "reachable accepting_env vault_approved \<and> exists (contracts vault_approved 0)
   \<and> status (contracts vault_approved 0) = PendingLawyerFinalConfirmation
   \<and> status (contracts (after accepting_env vault_approved (0x11, 1002, Call_lawyerConfirm 0)) 0)
       = Completed
   \<and> rank (status (contracts vault_approved 0))
       \<le> rank (status (contracts (run accepting_env vault_approved
              [(0x22, 1002, Call_clientApprove 0), (0x11, 1003, Call_lawyerConfirm 0)]) 0))
   \<and> (\<exists>e. clientApprove vault_approved 0x22 1002 0 = Inl e)
   \<and> exec accepting_env vault_approved 0x22 1002 (Call_clientApprove 0)
        = Inl (Require ''Contract not in pending client approval status'')
   \<and> after accepting_env vault_approved (0x22, 1002, Call_clientApprove 0) = vault_approved"
proof -
  have e: "exists (contracts vault_approved 0)"
    and st: "status (contracts vault_approved 0) = PendingLawyerFinalConfirmation"
    by (simp_all add: vault_approved_eq)
  note t = status_only_moves_forward [OF reachable_vaults(3) e]
  have x: "exec accepting_env vault_approved 0x22 1002 (Call_clientApprove 0)
        = Inl (Require ''Contract not in pending client approval status'')"
    by (simp add: vault_approved_eq clientApprove_def)
  have a: "status (contracts (after accepting_env vault_approved (0x11, 1002, Call_lawyerConfirm 0)) 0)
       = Completed"
    by (simp add: after_def scenario_steps(3) vault_completed_eq)
  from t [where txs = "[(0x22, 1002, Call_clientApprove 0), (0x11, 1003, Call_lawyerConfirm 0)]"]
  have 2: "rank (status (contracts vault_approved 0))
       \<le> rank (status (contracts (run accepting_env vault_approved
              [(0x22, 1002, Call_clientApprove 0), (0x11, 1003, Call_lawyerConfirm 0)]) 0))"
    by blast
  from t [where sender = "0x22" and now = 1002] st
  have 3: "\<exists>e. clientApprove vault_approved 0x22 1002 0 = Inl e" by simp
  from t [where sender = "0x22" and now = 1002 and c = "Call_clientApprove 0"] x
  have 6: "after accepting_env vault_approved (0x22, 1002, Call_clientApprove 0) = vault_approved"
    by blast
  from reachable_vaults(3) e st a 2 3 x 6 show ?thesis by simp
qed

subsection \<open>Sequential ids and the party indexes\<close>

text \<open>
  A second record, created by the same lawyer for the same client from the same encrypted
  input as the first.
\<close>

definition two_records :: LawVault where
  "two_records = run accepting_env init_vault
     [(0x11, 1000, Call_createContract ''NDA'' 0x22 0x5EED []),
      (0x11, 1005, Call_createContract ''Lease'' 0x22 0x5EED [])]"

lemma two_records_eq: "two_records =
  \<lparr> contracts = (\<lambda>_. zero_Contract)(0 := \<lparr> id_f = 0, title = ''NDA'', encryptedContent = 0x5EED,
         lawyer = 0x11, client = 0x22, status = PendingClientApproval, createdAt = 1000,
         clientApprovedAt = 0, lawyerConfirmedAt = 0, exists = True \<rparr>,
       1 := \<lparr> id_f = 1, title = ''Lease'', encryptedContent = 0x5EED,
         lawyer = 0x11, client = 0x22, status = PendingClientApproval, createdAt = 1005,
         clientApprovedAt = 0, lawyerConfirmedAt = 0, exists = True \<rparr>),
     clientContracts = (\<lambda>_. [])(0x22 := [0, 1]),
     lawyerContracts = (\<lambda>_. [])(0x11 := [0, 1]), totalContracts = 2,
     acl = {(0x5EED, 0xCAFE)},
     events = [ContractCreated 0 0x11 0x22 ''NDA'' 1000, ContractCreated 1 0x11 0x22 ''Lease'' 1005] \<rparr>"
  by (simp add: two_records_def eval_defs)

lemma reachable_two_records: "reachable accepting_env two_records"
  unfolding two_records_def by (intro reachable_run reachable_init)

text \<open>
  Claim C10. A successful \<open>createContract\<close> returns the current \<open>totalContracts\<close> as
  the id, increments \<open>totalContracts\<close> by exactly one (without wrapping) and appends the
  id to \<open>clientContracts[client]\<close> and to \<open>lawyerContracts[msg.sender]\<close>, leaving the
  lists of all other addresses alone. Consequently, in every reachable state,
  \<open>getClientContracts c\<close> is the list of the ids assigned so far whose record has client
  \<open>c\<close>, in the order of assignment: its elements are exactly the ids of the existing
  records with client \<open>c\<close>, it has no duplicates and it is strictly increasing. The same
  holds for \<open>getLawyerContracts\<close> and the lawyer.
\<close>

theorem sequential_ids_and_indexes:
  assumes "reachable E s"
  shows
   "(\<forall>s' i. createContract E s sender now ttl cl ext inputProof = Inr (s', i) \<longrightarrow>
        i = totalContracts s
      \<and> totalContracts s' = totalContracts s + 1
      \<and> unat (totalContracts s') = unat (totalContracts s) + 1
      \<and> clientContracts s' cl = clientContracts s cl @ [i]
      \<and> lawyerContracts s' sender = lawyerContracts s sender @ [i]
      \<and> (\<forall>a. a \<noteq> cl \<longrightarrow> clientContracts s' a = clientContracts s a)
      \<and> (\<forall>a. a \<noteq> sender \<longrightarrow> lawyerContracts s' a = lawyerContracts s a))
    \<and> getClientContracts s a =
         filter (\<lambda>i. client (contracts s i) = a) (ids_upto (totalContracts s))
    \<and> set (getClientContracts s a) = {i. exists (contracts s i) \<and> client (contracts s i) = a}
    \<and> distinct (getClientContracts s a) \<and> sorted_wrt (<) (getClientContracts s a)
    \<and> getLawyerContracts s a =
         filter (\<lambda>i. lawyer (contracts s i) = a) (ids_upto (totalContracts s))
    \<and> set (getLawyerContracts s a) = {i. exists (contracts s i) \<and> lawyer (contracts s i) = a}
    \<and> distinct (getLawyerContracts s a) \<and> sorted_wrt (<) (getLawyerContracts s a)"
proof -
  from assms have ix: "index_inv s" by (rule reachable_index_inv)
  then have e: "\<And>i. exists (contracts s i) = (i < totalContracts s)"
    and c: "getClientContracts s a =
         filter (\<lambda>i. client (contracts s i) = a) (ids_upto (totalContracts s))"
    and l: "getLawyerContracts s a =
         filter (\<lambda>i. lawyer (contracts s i) = a) (ids_upto (totalContracts s))"
    by (simp_all add: index_inv_def getClientContracts_def getLawyerContracts_def)
  have 1: "\<forall>s' i. createContract E s sender now ttl cl ext inputProof = Inr (s', i) \<longrightarrow>
        i = totalContracts s
      \<and> totalContracts s' = totalContracts s + 1
      \<and> unat (totalContracts s') = unat (totalContracts s) + 1
      \<and> clientContracts s' cl = clientContracts s cl @ [i]
      \<and> lawyerContracts s' sender = lawyerContracts s sender @ [i]
      \<and> (\<forall>a. a \<noteq> cl \<longrightarrow> clientContracts s' a = clientContracts s a)
      \<and> (\<forall>a. a \<noteq> sender \<longrightarrow> lawyerContracts s' a = lawyerContracts s a)"
  proof (intro allI impI)
    fix s' i assume "createContract E s sender now ttl cl ext inputProof = Inr (s', i)"
    note r = createContract_Inr [OF this]
    from r have "1 + totalContracts s \<noteq> 0" by (simp add: add_eq_0_iff)
    then have "unat (totalContracts s + 1) = Suc (unat (totalContracts s))"
      by (simp add: unatSuc add.commute)
    with r show "i = totalContracts s
      \<and> totalContracts s' = totalContracts s + 1
      \<and> unat (totalContracts s') = unat (totalContracts s) + 1
      \<and> clientContracts s' cl = clientContracts s cl @ [i]
      \<and> lawyerContracts s' sender = lawyerContracts s sender @ [i]
      \<and> (\<forall>a. a \<noteq> cl \<longrightarrow> clientContracts s' a = clientContracts s a)
      \<and> (\<forall>a. a \<noteq> sender \<longrightarrow> lawyerContracts s' a = lawyerContracts s a)"
      by auto
  qed
  have 2: "set (getClientContracts s a) = {i. exists (contracts s i) \<and> client (contracts s i) = a}"
    "set (getLawyerContracts s a) = {i. exists (contracts s i) \<and> lawyer (contracts s i) = a}"
    by (auto simp: c l e set_ids_upto)
  have 3: "distinct (getClientContracts s a)" "distinct (getLawyerContracts s a)"
    by (simp_all add: c l distinct_ids_upto)
  have 4: "sorted_wrt (<) (getClientContracts s a)" "sorted_wrt (<) (getLawyerContracts s a)"
    by (simp_all add: c l sorted_wrt_filter sorted_ids_upto)
  from 1 c l 2 3 4 show ?thesis by blast
qed

theorem sequential_ids_and_indexes_witness:
  "reachable accepting_env vault_created
   \<and> createContract accepting_env vault_created 0x11 1005 ''Lease'' 0x22 0x5EED [] = Inr (two_records, 1)
   \<and> totalContracts vault_created = 1 \<and> totalContracts two_records = 2
   \<and> clientContracts two_records 0x22 = clientContracts vault_created 0x22 @ [1]
   \<and> lawyerContracts two_records 0x11 = lawyerContracts vault_created 0x11 @ [1]
   \<and> reachable accepting_env two_records
   \<and> getClientContracts two_records 0x22 = [0, 1]
   \<and> set (getClientContracts two_records 0x22) =
        {i. exists (contracts two_records i) \<and> client (contracts two_records i) = 0x22}
   \<and> distinct (getClientContracts two_records 0x22)
   \<and> set (getLawyerContracts two_records 0x11) =
        {i. exists (contracts two_records i) \<and> lawyer (contracts two_records i) = 0x11}"
proof -
  have c: "createContract accepting_env vault_created 0x11 1005 ''Lease'' 0x22 0x5EED [] = Inr (two_records, 1)"
    by (simp add: vault_created_eq two_records_eq) (simp add: eval_defs fun_upd_twist)
  note t1 = sequential_ids_and_indexes [OF reachable_vaults(2), THEN conjunct1, rule_format, OF c]
  note t2 = sequential_ids_and_indexes [OF reachable_two_records, THEN conjunct2, of "0x22"]
  note t3 = sequential_ids_and_indexes [OF reachable_two_records, THEN conjunct2, of "0x11"]
  have v: "totalContracts vault_created = 1" "totalContracts two_records = 2"
    "getClientContracts two_records 0x22 = [0, 1]"
    by (simp_all add: vault_created_eq two_records_eq getClientContracts_def)
  from t1 have a1: "clientContracts two_records 0x22 = clientContracts vault_created 0x22 @ [1]"
    "lawyerContracts two_records 0x11 = lawyerContracts vault_created 0x11 @ [1]"
    by blast+
  from t2 have a2: "set (getClientContracts two_records 0x22) =
        {i. exists (contracts two_records i) \<and> client (contracts two_records i) = 0x22}"
    "distinct (getClientContracts two_records 0x22)"
    by blast+
  from t3 have a3: "set (getLawyerContracts two_records 0x11) =
        {i. exists (contracts two_records i) \<and> lawyer (contracts two_records i) = 0x11}"
    by blast
  show ?thesis
    by (intro conjI) (fact reachable_vaults(2) c v a1 a2 a3 reachable_two_records)+
qed

subsection \<open>Who holds a grant\<close>

text \<open>
  The library's access-control list is keyed by the ciphertext handle, not by the record.
  When the lawyer submits the same encrypted input twice, for the same client, both records
  store the same handle. Completing the first then grants the handle to the lawyer and the
  client while the second record is still waiting for the client's approval.
\<close>

definition shared_handle :: LawVault where
  "shared_handle = run accepting_env two_records
     [(0x22, 1010, Call_clientApprove 0), (0x11, 1020, Call_lawyerConfirm 0)]"

text \<open>
  The same happens when the second record is created after the first was completed: its
  parties hold the grant from the moment it is created.
\<close>

definition late_duplicate :: LawVault where
  "late_duplicate = run accepting_env vault_completed
     [(0x11, 1005, Call_createContract ''Lease'' 0x22 0x5EED [])]"

lemma shared_handle_eq: "shared_handle =
  \<lparr> contracts = (\<lambda>_. zero_Contract)(0 := \<lparr> id_f = 0, title = ''NDA'', encryptedContent = 0x5EED,
         lawyer = 0x11, client = 0x22, status = Completed, createdAt = 1000,
         clientApprovedAt = 1010, lawyerConfirmedAt = 1020, exists = True \<rparr>,
       1 := \<lparr> id_f = 1, title = ''Lease'', encryptedContent = 0x5EED,
         lawyer = 0x11, client = 0x22, status = PendingClientApproval, createdAt = 1005,
         clientApprovedAt = 0, lawyerConfirmedAt = 0, exists = True \<rparr>),
     clientContracts = (\<lambda>_. [])(0x22 := [0, 1]),
     lawyerContracts = (\<lambda>_. [])(0x11 := [0, 1]), totalContracts = 2,
     acl = {(0x5EED, 0x22), (0x5EED, 0x11), (0x5EED, 0xCAFE)},
     events = [ContractCreated 0 0x11 0x22 ''NDA'' 1000, ContractCreated 1 0x11 0x22 ''Lease'' 1005,
               ClientApproved 0 0x22 1010, LawyerConfirmed 0 0x11 1020] \<rparr>"
  by (simp add: shared_handle_def two_records_eq) (simp add: eval_defs fun_upd_twist)

lemma late_duplicate_eq: "late_duplicate =
  \<lparr> contracts = (\<lambda>_. zero_Contract)(0 := \<lparr> id_f = 0, title = ''NDA'', encryptedContent = 0x5EED,
         lawyer = 0x11, client = 0x22, status = Completed, createdAt = 1000,
         clientApprovedAt = 1001, lawyerConfirmedAt = 1002, exists = True \<rparr>,
       1 := \<lparr> id_f = 1, title = ''Lease'', encryptedContent = 0x5EED,
         lawyer = 0x11, client = 0x22, status = PendingClientApproval, createdAt = 1005,
         clientApprovedAt = 0, lawyerConfirmedAt = 0, exists = True \<rparr>),
     clientContracts = (\<lambda>_. [])(0x22 := [0, 1]),
     lawyerContracts = (\<lambda>_. [])(0x11 := [0, 1]), totalContracts = 2,
     acl = {(0x5EED, 0x22), (0x5EED, 0x11), (0x5EED, 0xCAFE)},
     events = [ContractCreated 0 0x11 0x22 ''NDA'' 1000, ClientApproved 0 0x22 1001,
               LawyerConfirmed 0 0x11 1002, ContractCreated 1 0x11 0x22 ''Lease'' 1005] \<rparr>"
  by (simp add: late_duplicate_def vault_completed_eq) (simp add: eval_defs insert_commute)

lemma late_duplicate_step:
  "createContract accepting_env vault_completed 0x11 1005 ''Lease'' 0x22 0x5EED []
     = Inr (late_duplicate, 1)"
  by (simp add: late_duplicate_eq vault_completed_eq) (simp add: eval_defs insert_commute)

lemma reachable_duplicates:
  "reachable accepting_env shared_handle" "reachable accepting_env late_duplicate"
  unfolding shared_handle_def late_duplicate_def
  by (intro reachable_run reachable_two_records reachable_vaults(4))+

text \<open>
  Claim C4 (in every reachable state the lawyer and the client of a record hold the decrypt
  grant for its ciphertext if and only if the record is \<open>Completed\<close>) does not hold of
  the contract, against what the contract says of itself: ``Both lawyer and client must
  approve before either can decrypt'' and, where \<open>createContract\<close> calls
  \<open>FHE.allowThis\<close>, ``Initially, no one can decrypt (will be allowed after both
  approve)''. The lawyer \<open>0x11\<close> creates two records for the client \<open>0x22\<close> from the
  same encrypted input, the client approves record 0 and the lawyer confirms it. In the
  state reached, record 1 is in \<open>PendingClientApproval\<close>, the client has never approved
  it and the lawyer has never confirmed it, and both hold the grant for its ciphertext
  handle, which the public getter \<open>contracts\<close> gives to any caller. When record 1 is
  created after record 0 was completed, \<open>createContract\<close> returns it in
  \<open>PendingClientApproval\<close> with both parties already holding the grant.
\<close>

theorem grant_before_completion:
  "reachable accepting_env shared_handle
   \<and> exists (contracts shared_handle 1)
   \<and> status (contracts shared_handle 1) = PendingClientApproval
   \<and> clientApprovedAt (contracts shared_handle 1) = 0
   \<and> lawyerConfirmedAt (contracts shared_handle 1) = 0
   \<and> (encryptedContent (contracts shared_handle 1), lawyer (contracts shared_handle 1))
        \<in> acl shared_handle
   \<and> (encryptedContent (contracts shared_handle 1), client (contracts shared_handle 1))
        \<in> acl shared_handle
   \<and> granted shared_handle 1
   \<and> \<not> (granted shared_handle 1 \<longleftrightarrow> status (contracts shared_handle 1) = Completed)
   \<and> exec accepting_env shared_handle 0x33 1030 (Call_contracts 1)
        = Inr (shared_handle, Ret_struct (contracts shared_handle 1))
   \<and> encryptedContent (contracts shared_handle 1) = 0x5EED
   \<and> reachable accepting_env vault_completed
   \<and> createContract accepting_env vault_completed 0x11 1005 ''Lease'' 0x22 0x5EED []
        = Inr (late_duplicate, 1)
   \<and> status (contracts late_duplicate 1) = PendingClientApproval
   \<and> granted late_duplicate 1
   \<and> \<not> (granted late_duplicate 1 \<longleftrightarrow> status (contracts late_duplicate 1) = Completed)"
proof -
  have a: "exists (contracts shared_handle 1)"
    "status (contracts shared_handle 1) = PendingClientApproval"
    "clientApprovedAt (contracts shared_handle 1) = 0"
    "lawyerConfirmedAt (contracts shared_handle 1) = 0"
    "(encryptedContent (contracts shared_handle 1), lawyer (contracts shared_handle 1))
        \<in> acl shared_handle"
    "(encryptedContent (contracts shared_handle 1), client (contracts shared_handle 1))
        \<in> acl shared_handle"
    "granted shared_handle 1"
    "\<not> (granted shared_handle 1 \<longleftrightarrow> status (contracts shared_handle 1) = Completed)"
    "encryptedContent (contracts shared_handle 1) = 0x5EED"
    by (simp_all add: shared_handle_eq granted_def)
  have b: "exec accepting_env shared_handle 0x33 1030 (Call_contracts 1)
        = Inr (shared_handle, Ret_struct (contracts shared_handle 1))"
    by simp
  have c: "status (contracts late_duplicate 1) = PendingClientApproval"
    "granted late_duplicate 1"
    "\<not> (granted late_duplicate 1 \<longleftrightarrow> status (contracts late_duplicate 1) = Completed)"
    by (simp_all add: late_duplicate_eq granted_def)
  show ?thesis
    by (intro conjI) (fact reachable_duplicates(1) reachable_vaults(4) a b c late_duplicate_step)+
qed

text \<open>
  How far the intent holds. In every reachable state the lawyer and the client of a
  \<open>Completed\<close> record hold the grant for its handle, and for a record whose handle no other
  record stores they hold it only if the record is \<open>Completed\<close>. Every grant on the list
  was made either to the contract itself for the handle of some record (\<open>FHE.allowThis\<close>
  in \<open>createContract\<close>) or to the lawyer or the client of a \<open>Completed\<close> record for its
  handle (\<open>FHE.allow\<close> in \<open>lawyerConfirm\<close>). \<open>createContract\<close> adds only the grant to
  the contract itself, \<open>clientApprove\<close> adds none, \<open>lawyerConfirm\<close> adds the two grants
  for the record it completes, and no call removes a grant.
\<close>

lemma grants_in_reachable_states:
  assumes "reachable E s" and "exists (contracts s i)"
  shows
   "(status (contracts s i) = Completed \<longrightarrow> granted s i)
    \<and> ((\<forall>j. exists (contracts s j) \<and>
             encryptedContent (contracts s j) = encryptedContent (contracts s i) \<longrightarrow> j = i) \<longrightarrow>
         (granted s i \<longleftrightarrow> status (contracts s i) = Completed))
    \<and> (\<forall>h a. (h, a) \<in> acl s \<longrightarrow>
         (a = self_address E \<and>
            (\<exists>j. exists (contracts s j) \<and> encryptedContent (contracts s j) = h)) \<or>
         (\<exists>j. exists (contracts s j) \<and> status (contracts s j) = Completed \<and>
              encryptedContent (contracts s j) = h \<and>
              (a = lawyer (contracts s j) \<or> a = client (contracts s j))))
    \<and> (\<forall>s' k. createContract E s sender now ttl cl ext inputProof = Inr (s', k) \<longrightarrow>
         (\<exists>h. fromExternal E ext inputProof sender = Some h \<and>
              acl s' = insert (h, self_address E) (acl s)))
    \<and> (\<forall>s'. clientApprove s sender now k = Inr s' \<longrightarrow> acl s' = acl s)
    \<and> (\<forall>s'. lawyerConfirm s sender now k = Inr s' \<longrightarrow>
         status (contracts s' k) = Completed \<and>
         acl s' = acl s \<union> {(encryptedContent (contracts s k), lawyer (contracts s k)),
                            (encryptedContent (contracts s k), client (contracts s k))})
    \<and> (\<forall>s' r. exec E s sender now c = Inr (s', r) \<longrightarrow> acl s \<subseteq> acl s')"
proof -
  from assms(1) have inv: "acl_inv E s" by (rule reachable_acl_inv)
  have 1: "status (contracts s i) = Completed \<longrightarrow> granted s i"
    using inv assms(2) by (simp add: acl_inv_def)
  have 3: "\<forall>h a. (h, a) \<in> acl s \<longrightarrow>
         (a = self_address E \<and>
            (\<exists>j. exists (contracts s j) \<and> encryptedContent (contracts s j) = h)) \<or>
         (\<exists>j. exists (contracts s j) \<and> status (contracts s j) = Completed \<and>
              encryptedContent (contracts s j) = h \<and>
              (a = lawyer (contracts s j) \<or> a = client (contracts s j)))"
    using inv unfolding acl_inv_def by blast
  have 2: "(\<forall>j. exists (contracts s j) \<and>
             encryptedContent (contracts s j) = encryptedContent (contracts s i) \<longrightarrow> j = i) \<longrightarrow>
         (granted s i \<longleftrightarrow> status (contracts s i) = Completed)"
  proof
    assume u: "\<forall>j. exists (contracts s j) \<and>
             encryptedContent (contracts s j) = encryptedContent (contracts s i) \<longrightarrow> j = i"
    show "granted s i \<longleftrightarrow> status (contracts s i) = Completed"
    proof
      assume g: "granted s i"
      from inv assms(2) have ne: "lawyer (contracts s i) \<noteq> client (contracts s i)"
        by (simp add: acl_inv_def)
      show "status (contracts s i) = Completed"
      proof (rule ccontr)
        assume n: "status (contracts s i) \<noteq> Completed"
        have "\<And>a. (encryptedContent (contracts s i), a) \<in> acl s \<Longrightarrow> a = self_address E"
        proof -
          fix a assume "(encryptedContent (contracts s i), a) \<in> acl s"
          with 3 have "a = self_address E \<or>
            (\<exists>j. exists (contracts s j) \<and> status (contracts s j) = Completed \<and>
              encryptedContent (contracts s j) = encryptedContent (contracts s i))" by blast
          with u n show "a = self_address E" by blast
        qed
        with g have "lawyer (contracts s i) = self_address E" "client (contracts s i) = self_address E"
          by (simp_all add: granted_def)
        with ne show False by simp
      qed
    next
      assume "status (contracts s i) = Completed"
      with 1 show "granted s i" by simp
    qed
  qed
  have 4: "\<forall>s' k. createContract E s sender now ttl cl ext inputProof = Inr (s', k) \<longrightarrow>
         (\<exists>h. fromExternal E ext inputProof sender = Some h \<and>
              acl s' = insert (h, self_address E) (acl s))"
    by (auto dest!: createContract_Inr)
  have 5: "\<forall>s'. clientApprove s sender now k = Inr s' \<longrightarrow> acl s' = acl s"
    by (auto dest!: clientApprove_Inr)
  have 6: "\<forall>s'. lawyerConfirm s sender now k = Inr s' \<longrightarrow>
         status (contracts s' k) = Completed \<and>
         acl s' = acl s \<union> {(encryptedContent (contracts s k), lawyer (contracts s k)),
                            (encryptedContent (contracts s k), client (contracts s k))}"
    by (auto dest!: lawyerConfirm_Inr)
  have 7: "\<forall>s' r. exec E s sender now c = Inr (s', r) \<longrightarrow> acl s \<subseteq> acl s'"
    by (cases c)
       (auto split: sum.splits prod.splits
             dest!: createContract_Inr clientApprove_Inr lawyerConfirm_Inr)
  from 1 2 3 4 5 6 7 show ?thesis by blast
qed

section \<open>The fingerprint of a text\<close>

text \<open>
  The front end is TypeScript. A JavaScript string is a sequence of UTF-16 code units;
  \<open>text.length\<close> counts them and \<open>text.charCodeAt(i)\<close> returns the \<open>i\<close>-th one. A
  character above U+FFFF is stored as two code units, a surrogate pair. Numbers are
  doubles; every value \<open>calculateTextHash\<close> computes is an integer of magnitude below
  \<open>2 ^ 53\<close>, which a double represents exactly, so the numbers are integers here.
\<close>

type_synonym js_string = "16 word list"

text \<open>An ASCII literal as a JavaScript string.\<close>

definition js_literal :: "string \<Rightarrow> js_string" where
  "js_literal cs = map (\<lambda>c. of_nat (of_char c)) cs"

text \<open>
  \<open>ToInt32\<close> of ECMAScript maps a number to the signed 32-bit integer congruent to it
  modulo \<open>2 ^ 32\<close>. The operators \<open><<\<close> and \<open>&\<close> apply it to their operands and
  return a signed 32-bit integer; \<open>%\<close> takes the sign of the dividend.
\<close>

definition ToInt32 :: "int \<Rightarrow> int" where
  "ToInt32 x = (x + 2 ^ 31) mod 2 ^ 32 - 2 ^ 31"

definition shift_left :: "int \<Rightarrow> nat \<Rightarrow> int" where
  "shift_left x n = ToInt32 (ToInt32 x * 2 ^ (n mod 32))"

definition bitwise_and :: "int \<Rightarrow> int \<Rightarrow> int" where
  "bitwise_and x y = ToInt32 x AND ToInt32 y"

definition remainder :: "int \<Rightarrow> int \<Rightarrow> int" where
  "remainder a b = sgn a * (\<bar>a\<bar> mod \<bar>b\<bar>)"

text \<open>The loop of \<open>calculateTextHash\<close>, from the value of \<open>hash\<close> before an iteration.\<close>

fun hash_loop :: "int \<Rightarrow> js_string \<Rightarrow> int" where
  "hash_loop hash [] = hash"
| "hash_loop hash (c # cs) =
     (let char = uint c;
          hash1 = (shift_left hash 5 - hash) + char;
          hash2 = bitwise_and hash1 hash1
      in hash_loop hash2 cs)"

definition calculateTextHash :: "js_string \<Rightarrow> int" where
  "calculateTextHash text = remainder \<bar>hash_loop 0 text\<bar> 2147483647"

text \<open>
  The code points of a string, as the string iterator and \<open>codePointAt\<close> read them: a
  high surrogate followed by a low surrogate is one code point above U+FFFF, every other
  code unit is a code point by itself.
\<close>

fun code_points :: "js_string \<Rightarrow> nat list" where
  "code_points [] = []"
| "code_points [c] = [unat c]"
| "code_points (c # d # cs) =
     (if 0xD800 \<le> c \<and> c \<le> 0xDBFF \<and> 0xDC00 \<le> d \<and> d \<le> 0xDFFF
      then (0x10000 + (unat c - 0xD800) * 0x400 + (unat d - 0xDC00)) # code_points cs
      else unat c # code_points (d # cs))"

text \<open>
  The fingerprint function as the specification words it: from 0, accumulate
  \<open>hash = (hash * 31 + codepoint) mod 2 ^ 32\<close> in two's complement, then return
  \<open>abs(hash) mod (2 ^ 31 - 1)\<close>.
\<close>

definition spec_fingerprint_step :: "int \<Rightarrow> nat \<Rightarrow> int" where
  "spec_fingerprint_step hash codepoint = ToInt32 (hash * 31 + int codepoint)"

definition spec_fingerprint :: "nat list \<Rightarrow> int" where
  "spec_fingerprint cps = \<bar>foldl spec_fingerprint_step 0 cps\<bar> mod (2 ^ 31 - 1)"

lemma wrap_mod: "((a + k) mod m - k) mod m = a mod (m::int)"
  by (simp add: mod_diff_left_eq)

lemma ToInt32_mod: "ToInt32 a mod 2 ^ 32 = a mod 2 ^ 32"
  unfolding ToInt32_def by (rule wrap_mod)

lemma ToInt32_cong: "a mod 2 ^ 32 = b mod 2 ^ 32 \<Longrightarrow> ToInt32 a = ToInt32 b"
proof -
  assume "a mod 2 ^ 32 = b mod 2 ^ 32"
  then have "(a + 2 ^ 31) mod 2 ^ 32 = (b + 2 ^ 31) mod 2 ^ 32"
    by (rule mod_add_cong) simp
  then show ?thesis unfolding ToInt32_def by simp
qed

lemma hash_step: "bitwise_and (shift_left h 5 - h + c) (shift_left h 5 - h + c) = ToInt32 (h * 31 + c)"
proof -
  have p: "(2::int) ^ (5 mod 32) = 32" by simp
  have "shift_left h 5 mod 2 ^ 32 = (ToInt32 h * 32) mod 2 ^ 32"
    unfolding shift_left_def p by (rule ToInt32_mod)
  also have "\<dots> = (h * 32) mod 2 ^ 32"
    by (rule mod_mult_cong) (simp_all only: ToInt32_mod)
  finally have "shift_left h 5 mod 2 ^ 32 = (h * 32) mod 2 ^ 32" .
  then have "(shift_left h 5 - h) mod 2 ^ 32 = (h * 32 - h) mod 2 ^ 32"
    by (rule mod_diff_cong) simp
  then have "(shift_left h 5 - h + c) mod 2 ^ 32 = (h * 32 - h + c) mod 2 ^ 32"
    by (rule mod_add_cong) simp
  moreover have "h * 32 - h + c = h * 31 + c" by simp
  ultimately have "(shift_left h 5 - h + c) mod 2 ^ 32 = (h * 31 + c) mod 2 ^ 32"
    by (simp only:)
  then have "ToInt32 (shift_left h 5 - h + c) = ToInt32 (h * 31 + c)" by (rule ToInt32_cong)
  then show ?thesis by (simp add: bitwise_and_def)
qed

lemma hash_loop_foldl: "hash_loop h s = foldl spec_fingerprint_step h (map unat s)"
  by (induction s arbitrary: h) (simp_all add: Let_def hash_step spec_fingerprint_step_def)

lemma remainder_abs: "0 < m \<Longrightarrow> remainder \<bar>x\<bar> m = \<bar>x\<bar> mod m"
  by (cases "x = 0") (simp_all add: remainder_def)

lemma calculateTextHash_fingerprint: "calculateTextHash s = spec_fingerprint (map unat s)"
  by (simp add: calculateTextHash_def spec_fingerprint_def hash_loop_foldl remainder_abs)

lemma hash_loop_step:
  "hash_loop hash (c # cs) =
     hash_loop (bitwise_and (shift_left hash 5 - hash + uint c)
                            (shift_left hash 5 - hash + uint c)) cs"
  by (simp add: Let_def)

lemmas hash_eval = calculateTextHash_def hash_loop_step ToInt32_def shift_left_def
  bitwise_and_def remainder_def js_literal_def

lemma code_points_no_high_surrogate:
  "\<forall>c \<in> set s. \<not> (0xD800 \<le> c \<and> c \<le> 0xDBFF) \<Longrightarrow> code_points s = map unat s"
  by (induction s rule: code_points.induct) auto

text \<open>
  Claim C2 as stated (the hash runs over the code points of the string) fails on a string
  with a character above U+FFFF: the one-character string U+1F600 has the code units
  \<open>0xD83D\<close>, \<open>0xDE00\<close>; \<open>calculateTextHash\<close> hashes the two code units, the
  specification's function the single code point.
\<close>

theorem calculateTextHash_code_points_counterexample:
  "code_points [0xD83D, 0xDE00] = [0x1F600]
   \<and> calculateTextHash [0xD83D, 0xDE00] = 1772899
   \<and> spec_fingerprint (code_points [0xD83D, 0xDE00]) = 128512
   \<and> calculateTextHash [0xD83D, 0xDE00] \<noteq> spec_fingerprint (code_points [0xD83D, 0xDE00])"
  by (simp add: hash_eval spec_fingerprint_def spec_fingerprint_step_def
      del: hash_loop.simps(2))

text \<open>
  Claim C2, amended. For every string, \<open>calculateTextHash\<close> computes the polynomial
  rolling hash over the UTF-16 code units of the string (the values of \<open>charCodeAt\<close>):
  from 0 it accumulates \<open>hash = (hash * 31 + unit) mod 2 ^ 32\<close> with two's-complement
  wrap-around and returns \<open>abs(hash) mod (2 ^ 31 - 1)\<close>; the result lies in
  \<open>[0, 2 ^ 31 - 2]\<close>. For a string without a high surrogate the code units are the code
  points, and the result is the specification's fingerprint of the code points.
\<close>

theorem calculateTextHash_rolling_hash:
  "calculateTextHash s = \<bar>foldl (\<lambda>hash c. ToInt32 (hash * 31 + uint c)) 0 s\<bar> mod (2 ^ 31 - 1)
   \<and> calculateTextHash s = spec_fingerprint (map unat s)
   \<and> 0 \<le> calculateTextHash s \<and> calculateTextHash s \<le> 2 ^ 31 - 2
   \<and> ((\<forall>c \<in> set s. \<not> (0xD800 \<le> c \<and> c \<le> 0xDBFF)) \<longrightarrow>
         code_points s = map unat s \<and> calculateTextHash s = spec_fingerprint (code_points s))"
proof -
  have 1: "calculateTextHash s = spec_fingerprint (map unat s)" by (rule calculateTextHash_fingerprint)
  have f: "\<And>h. foldl spec_fingerprint_step h (map unat s) = foldl (\<lambda>hash c. ToInt32 (hash * 31 + uint c)) h s"
    by (induction s) (simp_all add: spec_fingerprint_step_def)
  have 0: "calculateTextHash s = \<bar>foldl (\<lambda>hash c. ToInt32 (hash * 31 + uint c)) 0 s\<bar> mod (2 ^ 31 - 1)"
    unfolding 1 spec_fingerprint_def f ..
  have 2: "0 \<le> calculateTextHash s \<and> calculateTextHash s \<le> 2 ^ 31 - 2"
    unfolding 1 spec_fingerprint_def
    using pos_mod_bound [of "2 ^ 31 - 1" "\<bar>foldl spec_fingerprint_step 0 (map unat s)\<bar>"]
    by simp
  have 3: "(\<forall>c \<in> set s. \<not> (0xD800 \<le> c \<and> c \<le> 0xDBFF)) \<longrightarrow>
         code_points s = map unat s \<and> calculateTextHash s = spec_fingerprint (code_points s)"
    using 1 by (simp add: code_points_no_high_surrogate)
  from 0 1 2 3 show ?thesis by blast
qed

theorem calculateTextHash_rolling_hash_witness:
  "code_points (js_literal ''Confidential terms'') = map unat (js_literal ''Confidential terms'')
   \<and> calculateTextHash (js_literal ''Confidential terms'') = 1684638991
   \<and> spec_fingerprint (code_points (js_literal ''Confidential terms'')) = 1684638991"
proof -
  have h: "\<forall>c \<in> set (js_literal ''Confidential terms''). \<not> (0xD800 \<le> c \<and> c \<le> 0xDBFF)"
    by (simp add: js_literal_def)
  have v: "calculateTextHash (js_literal ''Confidential terms'') = 1684638991"
    by (simp add: hash_eval del: hash_loop.simps(2))
  from calculateTextHash_rolling_hash [of "js_literal ''Confidential terms''"] h
  have "code_points (js_literal ''Confidential terms'') = map unat (js_literal ''Confidential terms'')
    \<and> calculateTextHash (js_literal ''Confidential terms'')
        = spec_fingerprint (code_points (js_literal ''Confidential terms''))"
    by blast
  with v show ?thesis by (simp only:)
qed

section \<open>Sealing and opening the payload\<close>

text \<open>
  \<open>encryptText\<close> and \<open>decryptText\<close> are written against the browser: \<open>TextEncoder\<close>,
  \<open>TextDecoder\<close>, \<open>btoa\<close>, \<open>atob\<close> and \<open>crypto.subtle\<close>. The text codec and
  Base64 are modelled as their standards define them (WHATWG Encoding, and the
  forgiving-base64 decoding of WHATWG Infra); PBKDF2 and AES-GCM are parameters, and so is
  the number of arguments the engine accepts in a call, which the spread call
  \<open>String.fromCharCode(...combined)\<close> can exceed. Limits of memory are not modelled.
\<close>

subsection \<open>Text and bytes\<close>

text \<open>
  \<open>TextEncoder.encode\<close> first converts the string to scalar values: a surrogate pair
  becomes one scalar value, an unpaired surrogate becomes U+FFFD. It then writes each
  scalar value in UTF-8.
\<close>

definition is_high_surrogate :: "16 word \<Rightarrow> bool" where
  "is_high_surrogate c \<longleftrightarrow> 0xD800 \<le> c \<and> c \<le> 0xDBFF"

definition is_low_surrogate :: "16 word \<Rightarrow> bool" where
  "is_low_surrogate c \<longleftrightarrow> 0xDC00 \<le> c \<and> c \<le> 0xDFFF"

fun scalar_values :: "js_string \<Rightarrow> nat list" where
  "scalar_values [] = []"
| "scalar_values [c] =
     (if is_high_surrogate c \<or> is_low_surrogate c then [0xFFFD] else [unat c])"
| "scalar_values (c # d # cs) =
     (if is_high_surrogate c then
        (if is_low_surrogate d
         then (0x10000 + (unat c - 0xD800) * 0x400 + (unat d - 0xDC00)) # scalar_values cs
         else 0xFFFD # scalar_values (d # cs))
      else if is_low_surrogate c then 0xFFFD # scalar_values (d # cs)
      else unat c # scalar_values (d # cs))"

definition utf8_encode_scalar :: "nat \<Rightarrow> bytes" where
  "utf8_encode_scalar cp =
     (if cp < 0x80 then [of_nat cp]
      else if cp < 0x800 then [of_nat (0xC0 + cp div 0x40), of_nat (0x80 + cp mod 0x40)]
      else if cp < 0x10000 then
        [of_nat (0xE0 + cp div 0x1000), of_nat (0x80 + cp div 0x40 mod 0x40),
         of_nat (0x80 + cp mod 0x40)]
      else
        [of_nat (0xF0 + cp div 0x40000), of_nat (0x80 + cp div 0x1000 mod 0x40),
         of_nat (0x80 + cp div 0x40 mod 0x40), of_nat (0x80 + cp mod 0x40)])"

definition TextEncoder_encode :: "js_string \<Rightarrow> bytes" where
  "TextEncoder_encode text = concat (map utf8_encode_scalar (scalar_values text))"

text \<open>
  \<open>TextDecoder.decode\<close>, with the defaults \<open>fatal = false\<close> and \<open>ignoreBOM = false\<close>
  that \<open>new TextDecoder()\<close> has: the UTF-8 decoder of the standard, which emits U+FFFD
  for a byte that cannot start or continue a sequence and reads the offending byte again;
  a leading U+FEFF of the output is dropped; the scalar values are written in UTF-16.
\<close>

definition in_range :: "8 word \<Rightarrow> 8 word \<Rightarrow> 8 word \<Rightarrow> bool" where
  "in_range b lower upper \<longleftrightarrow> lower \<le> b \<and> b \<le> upper"

definition lower_boundary :: "8 word \<Rightarrow> 8 word" where
  "lower_boundary b = (if b = 0xE0 then 0xA0 else if b = 0xF0 then 0x90 else 0x80)"

definition upper_boundary :: "8 word \<Rightarrow> 8 word" where
  "upper_boundary b = (if b = 0xED then 0x9F else if b = 0xF4 then 0x8F else 0xBF)"

fun utf8_decode :: "bytes \<Rightarrow> nat list" where
  "utf8_decode [] = []"
| "utf8_decode (b # bs) =
     (if b \<le> 0x7F then unat b # utf8_decode bs
      else if in_range b 0xC2 0xDF then
        (case bs of
           [] \<Rightarrow> [0xFFFD]
         | c # cs \<Rightarrow>
             if in_range c 0x80 0xBF
             then (unat (b AND 0x1F) * 0x40 + unat (c AND 0x3F)) # utf8_decode cs
             else 0xFFFD # utf8_decode bs)
      else if in_range b 0xE0 0xEF then
        (case bs of
           [] \<Rightarrow> [0xFFFD]
         | c # cs \<Rightarrow>
             if in_range c (lower_boundary b) (upper_boundary b)
             then
               (case cs of
                  [] \<Rightarrow> [0xFFFD]
                | d # ds \<Rightarrow>
                    if in_range d 0x80 0xBF
                    then (unat (b AND 0xF) * 0x1000 + unat (c AND 0x3F) * 0x40
                            + unat (d AND 0x3F)) # utf8_decode ds
                    else 0xFFFD # utf8_decode cs)
             else 0xFFFD # utf8_decode bs)
      else if in_range b 0xF0 0xF4 then
        (case bs of
           [] \<Rightarrow> [0xFFFD]
         | c # cs \<Rightarrow>
             if in_range c (lower_boundary b) (upper_boundary b)
             then
               (case cs of
                  [] \<Rightarrow> [0xFFFD]
                | d # ds \<Rightarrow>
                    if in_range d 0x80 0xBF
                    then
                      (case ds of
                         [] \<Rightarrow> [0xFFFD]
                       | e # es \<Rightarrow>
                           if in_range e 0x80 0xBF
                           then (unat (b AND 0x7) * 0x40000 + unat (c AND 0x3F) * 0x1000
                                   + unat (d AND 0x3F) * 0x40 + unat (e AND 0x3F))
                                # utf8_decode es
                           else 0xFFFD # utf8_decode ds)
                    else 0xFFFD # utf8_decode cs)
             else 0xFFFD # utf8_decode bs)
      else 0xFFFD # utf8_decode bs)"

definition utf16_encode_scalar :: "nat \<Rightarrow> js_string" where
  "utf16_encode_scalar cp =
     (if cp < 0x10000 then [of_nat cp]
      else [of_nat (0xD800 + (cp - 0x10000) div 0x400), of_nat (0xDC00 + (cp - 0x10000) mod 0x400)])"

fun strip_bom :: "nat list \<Rightarrow> nat list" where
  "strip_bom [] = []"
| "strip_bom (cp # cps) = (if cp = 0xFEFF then cps else cp # cps)"

definition TextDecoder_decode :: "bytes \<Rightarrow> js_string" where
  "TextDecoder_decode input = concat (map utf16_encode_scalar (strip_bom (utf8_decode input)))"

subsection \<open>Base64\<close>

text \<open>
  \<open>btoa\<close> throws when a code unit is above \<open>0xFF\<close> and otherwise encodes the code
  units as bytes. \<open>atob\<close> removes ASCII whitespace, removes one or two trailing \<open>=\<close>
  when the length is a multiple of four, throws when the length is then 1 modulo 4 or a
  character is outside the alphabet, and decodes; the bits left over at the end are
  discarded.
\<close>

datatype js_error = InvalidCharacterError | OperationError | RangeError

definition Uint8Array_from_charCodes :: "js_string \<Rightarrow> bytes" where
  "Uint8Array_from_charCodes s = map ucast s"

definition base64_char :: "nat \<Rightarrow> 16 word" where
  "base64_char n =
     (if n < 26 then of_nat (65 + n)
      else if n < 52 then of_nat (97 + (n - 26))
      else if n < 62 then of_nat (48 + (n - 52))
      else if n = 62 then 43 else 47)"

definition base64_index :: "16 word \<Rightarrow> nat option" where
  "base64_index c =
     (if 65 \<le> c \<and> c \<le> 90 then Some (unat c - 65)
      else if 97 \<le> c \<and> c \<le> 122 then Some (unat c - 97 + 26)
      else if 48 \<le> c \<and> c \<le> 57 then Some (unat c - 48 + 52)
      else if c = 43 then Some 62
      else if c = 47 then Some 63
      else None)"

fun base64_encode :: "nat list \<Rightarrow> js_string" where
  "base64_encode [] = []"
| "base64_encode [a] =
     [base64_char (a div 4), base64_char (a mod 4 * 16), 61, 61]"
| "base64_encode [a, b] =
     [base64_char (a div 4), base64_char (a mod 4 * 16 + b div 16),
      base64_char (b mod 16 * 4), 61]"
| "base64_encode (a # b # c # bs) =
     [base64_char (a div 4), base64_char (a mod 4 * 16 + b div 16),
      base64_char (b mod 16 * 4 + c div 64), base64_char (c mod 64)] @ base64_encode bs"

definition btoa :: "js_string \<Rightarrow> js_error + js_string" where
  "btoa s = (if \<exists>c \<in> set s. 0xFF < c then Inl InvalidCharacterError
             else Inr (base64_encode (map unat s)))"

definition is_ascii_whitespace :: "16 word \<Rightarrow> bool" where
  "is_ascii_whitespace c \<longleftrightarrow> c = 9 \<or> c = 10 \<or> c = 12 \<or> c = 13 \<or> c = 32"

definition strip_padding :: "js_string \<Rightarrow> js_string" where
  "strip_padding s =
     (if length s mod 4 = 0
      then (case rev s of
              c # d # r \<Rightarrow> if c = 61 then (if d = 61 then rev r else rev (d # r)) else s
            | _ \<Rightarrow> s)
      else s)"

fun base64_decode :: "nat list \<Rightarrow> nat list" where
  "base64_decode (w # x # y # z # r) =
     [(w * 4 + x div 16) mod 256, (x mod 16 * 16 + y div 4) mod 256, (y mod 4 * 64 + z) mod 256]
       @ base64_decode r"
| "base64_decode [w, x, y] = [(w * 4 + x div 16) mod 256, (x mod 16 * 16 + y div 4) mod 256]"
| "base64_decode [w, x] = [(w * 4 + x div 16) mod 256]"
| "base64_decode _ = []"

definition atob :: "js_string \<Rightarrow> js_error + js_string" where
  "atob s =
     (let d = strip_padding (filter (\<lambda>c. \<not> is_ascii_whitespace c) s) in
      if length d mod 4 = 1 then Inl InvalidCharacterError
      else (case those (map base64_index d) of
              None \<Rightarrow> Inl InvalidCharacterError
            | Some v \<Rightarrow> Inr (map of_nat (base64_decode v))))"

subsection \<open>The browser\<close>

text \<open>
  What \<open>crypto.subtle\<close> computes is not in the repository: PBKDF2 with SHA-256 (password
  bytes, salt, iteration count, key length in bits) and AES-GCM encryption and decryption
  (key, nonce, data; decryption fails when the tag does not verify) are parameters. The one
  property of them that is used is that decryption inverts encryption under the same key and
  nonce. The fourth parameter is the largest number of arguments the engine accepts in one
  call.

  The random number generator is the sequence of the bytes it is going to give:
  \<open>crypto.getRandomValues\<close> fills the array it is given with the next bytes of the
  sequence and leaves the rest to the next call. (It throws for an array of more than 65536
  bytes; \<open>encryptText\<close> asks for 16 and for 12.)

  \<open>String.fromCharCode(...combined)\<close> passes every byte of \<open>combined\<close> as an argument
  of its own; the call throws a \<open>RangeError\<close> when there are more bytes than the engine
  accepts arguments.
\<close>

record browser =
  pbkdf2_sha256 :: "bytes \<Rightarrow> bytes \<Rightarrow> nat \<Rightarrow> nat \<Rightarrow> bytes"
  aes_gcm_encrypt :: "bytes \<Rightarrow> bytes \<Rightarrow> bytes \<Rightarrow> bytes"
  aes_gcm_decrypt :: "bytes \<Rightarrow> bytes \<Rightarrow> bytes \<Rightarrow> bytes option"
  argument_limit :: nat

type_synonym random_source = "nat \<Rightarrow> 8 word"

definition aead_correct :: "browser \<Rightarrow> bool" where
  "aead_correct B \<longleftrightarrow> (\<forall>k iv d. aes_gcm_decrypt B k iv (aes_gcm_encrypt B k iv d) = Some d)"

definition getRandomValues :: "random_source \<Rightarrow> nat \<Rightarrow> bytes \<times> random_source" where
  "getRandomValues rng n = (map rng [0..<n], (\<lambda>i. rng (n + i)))"

definition String_fromCharCode :: "browser \<Rightarrow> bytes \<Rightarrow> js_error + js_string" where
  "String_fromCharCode B codes =
     (if argument_limit B < length codes then Inl RangeError else Inr (map ucast codes))"

definition deriveKey :: "browser \<Rightarrow> js_string \<Rightarrow> bytes \<Rightarrow> bytes" where
  "deriveKey B password salt = pbkdf2_sha256 B (TextEncoder_encode password) salt 100000 256"

definition encryptText ::
  "browser \<Rightarrow> random_source \<Rightarrow> js_string \<Rightarrow> js_string \<Rightarrow> js_error + js_string" where
  "encryptText B rng text password =
     (let data = TextEncoder_encode text;
          (salt, rng1) = getRandomValues rng 16;
          (iv, rng2) = getRandomValues rng1 12;
          key = deriveKey B password salt;
          encrypted = aes_gcm_encrypt B key iv data;
          combined = salt @ iv @ encrypted
      in (case String_fromCharCode B combined of
            Inl e \<Rightarrow> Inl e
          | Inr s \<Rightarrow> btoa s))"

definition decryptText :: "browser \<Rightarrow> js_string \<Rightarrow> js_string \<Rightarrow> js_error + js_string" where
  "decryptText B encryptedData password =
     (case atob encryptedData of
        Inl e \<Rightarrow> Inl e
      | Inr decoded \<Rightarrow>
          let combined = Uint8Array_from_charCodes decoded;
              salt = take 16 combined;
              iv = take 12 (drop 16 combined);
              encrypted = drop 28 combined;
              key = deriveKey B password salt
          in (case aes_gcm_decrypt B key iv encrypted of
                None \<Rightarrow> Inl OperationError
              | Some decrypted \<Rightarrow> Inr (TextDecoder_decode decrypted)))"

subsection \<open>A concrete instance\<close>

text \<open>
  A small instance of the interface, to evaluate the functions on concrete inputs: the key
  is cut from salt and password, the data is XORed with a key stream, and a 16-byte tag of
  key and nonce is appended and checked. It satisfies \<open>aead_correct\<close>; nothing else is
  claimed of it. Its calls take 65536 arguments at most.
\<close>

definition keystream :: "bytes \<Rightarrow> nat \<Rightarrow> bytes" where
  "keystream k n = take n (concat (replicate n (map (\<lambda>b. b + 0x5A) (rev k) @ [1])))"

definition sample_tag :: "bytes \<Rightarrow> bytes \<Rightarrow> bytes" where
  "sample_tag k iv = take 16 (rev k @ iv @ replicate 16 0)"

definition sample_browser :: browser where
  "sample_browser =
     \<lparr> pbkdf2_sha256 = (\<lambda>password salt iterations bits.
          take (bits div 8) (salt @ password @ replicate 32 0)),
       aes_gcm_encrypt = (\<lambda>k iv d. map2 (XOR) d (keystream k (length d)) @ sample_tag k iv),
       aes_gcm_decrypt = (\<lambda>k iv c.
          if 16 \<le> length c \<and> drop (length c - 16) c = sample_tag k iv
          then Some (map2 (XOR) (take (length c - 16) c) (keystream k (length c - 16)))
          else None),
       argument_limit = 65536 \<rparr>"

text \<open>
  A generator that gives sixteen times 7 and then 9 for ever, the salt and the nonce
  \<open>encryptText\<close> draws from it, and the blob that sealing the text ``NDA'' with them
  gives.
\<close>

definition sample_random :: random_source where
  "sample_random i = (if i < 16 then 7 else 9)"

definition sample_salt :: bytes where
  "sample_salt = replicate 16 7"

definition sample_iv :: bytes where
  "sample_iv = replicate 12 9"

definition sample_blob :: js_string where
  "sample_blob = js_literal ''BwcHBwcHBwcHBwcHBwcHBwkJCQkJCQkJCQkJCRQeGwAAAAAAAAAAAAAAAAAAAGs=''"

lemma keystream_length: "length (keystream k n) = n"
  by (simp add: keystream_def length_concat sum_list_replicate)

lemma aead_correct_sample: "aead_correct sample_browser"
proof -
  have x: "\<And>(d::bytes) ks. length ks = length d \<Longrightarrow> map2 (XOR) (map2 (XOR) d ks) ks = d"
  proof -
    fix d ks :: bytes assume "length ks = length d"
    then show "map2 (XOR) (map2 (XOR) d ks) ks = d"
      by (induction ks d rule: list_induct2) (simp_all add: xor.assoc)
  qed
  have t: "\<And>k iv. length (sample_tag k iv) = 16" by (simp add: sample_tag_def)
  show ?thesis
    by (simp add: aead_correct_def sample_browser_def t keystream_length x)
qed

lemma replicate_numeral: "replicate (numeral k) x = x # replicate (pred_numeral k) x"
  by (simp add: numeral_eq_Suc)

lemma getRandomValues_bytes:
  "fst (getRandomValues rng 16) = map rng [0..<16]"
  "fst (getRandomValues (snd (getRandomValues rng 16)) 12) = map rng [16..<28]"
proof -
  show "fst (getRandomValues rng 16) = map rng [0..<16]" by (simp add: getRandomValues_def)
  have "map (\<lambda>i. rng (16 + i)) [0..<12] = map rng (map (\<lambda>i. i + 16) [0..<12])"
    by (simp add: add.commute)
  also have "\<dots> = map rng [16..<28]" unfolding map_add_upt by simp
  finally show "fst (getRandomValues (snd (getRandomValues rng 16)) 12) = map rng [16..<28]"
    by (simp add: getRandomValues_def)
qed

lemma length_getRandomValues: "length (fst (getRandomValues rng n)) = n"
  by (simp add: getRandomValues_def)

lemma encryptText_combined:
  "encryptText B rng p k =
     (case String_fromCharCode B
             (fst (getRandomValues rng 16) @ fst (getRandomValues (snd (getRandomValues rng 16)) 12) @
              aes_gcm_encrypt B (deriveKey B k (fst (getRandomValues rng 16)))
                (fst (getRandomValues (snd (getRandomValues rng 16)) 12)) (TextEncoder_encode p)) of
        Inl e \<Rightarrow> Inl e
      | Inr s \<Rightarrow> btoa s)"
  by (simp add: encryptText_def Let_def case_prod_beta)

lemma sample_draws:
  "fst (getRandomValues sample_random 16) = sample_salt"
  "fst (getRandomValues (snd (getRandomValues sample_random 16)) 12) = sample_iv"
proof -
  have "map sample_random [0..<16] = map (\<lambda>_. 7) [0..<16]"
    by (rule map_cong [OF refl]) (simp add: sample_random_def)
  also have "\<dots> = replicate (length [0..<16::nat]) 7" by (rule map_replicate_const)
  also have "\<dots> = sample_salt" by (simp only: length_upt sample_salt_def) simp
  finally show "fst (getRandomValues sample_random 16) = sample_salt"
    unfolding getRandomValues_bytes .
  have "map sample_random [16..<28] = map (\<lambda>_. 9) [16..<28]"
    by (rule map_cong [OF refl]) (auto simp: sample_random_def)
  also have "\<dots> = replicate (length [16..<28::nat]) 9" by (rule map_replicate_const)
  also have "\<dots> = sample_iv" by (simp only: length_upt sample_iv_def) simp
  finally show "fst (getRandomValues (snd (getRandomValues sample_random 16)) 12) = sample_iv"
    unfolding getRandomValues_bytes .
qed

lemmas crypto_eval = replicate_numeral decryptText_def deriveKey_def
  sample_browser_def sample_salt_def sample_iv_def sample_blob_def keystream_def sample_tag_def js_literal_def TextEncoder_encode_def
  TextDecoder_decode_def utf8_encode_scalar_def utf16_encode_scalar_def is_high_surrogate_def
  is_low_surrogate_def in_range_def lower_boundary_def upper_boundary_def
  String_fromCharCode_def Uint8Array_from_charCodes_def btoa_def atob_def base64_char_def
  base64_index_def strip_padding_def is_ascii_whitespace_def Let_def

lemma sample_lengths: "length sample_salt = 16" "length sample_iv = 12"
  by (simp_all add: sample_salt_def sample_iv_def)

lemma sample_ct:
  "aes_gcm_encrypt sample_browser (deriveKey sample_browser (js_literal ''k'') sample_salt) sample_iv
     (TextEncoder_encode (js_literal ''NDA''))
   = [20, 30, 27, 0, 0, 0, 0, 0, 0, 0, 0, 0, 0, 0, 0, 0, 0, 0, 107]"
  by (simp add: crypto_eval)

lemma sample_encrypt:
  "encryptText sample_browser sample_random (js_literal ''NDA'') (js_literal ''k'')
     = Inr sample_blob"
  unfolding encryptText_combined sample_draws by (simp add: crypto_eval)

subsection \<open>Base64 decoding inverts encoding\<close>

text \<open>The digits and the padding that \<open>base64_encode\<close> produces, separately.\<close>

fun sextets :: "nat list \<Rightarrow> nat list" where
  "sextets [] = []"
| "sextets [a] = [a div 4, a mod 4 * 16]"
| "sextets [a, b] = [a div 4, a mod 4 * 16 + b div 16, b mod 16 * 4]"
| "sextets (a # b # c # bs) =
     [a div 4, a mod 4 * 16 + b div 16, b mod 16 * 4 + c div 64, c mod 64] @ sextets bs"

fun padding :: "nat list \<Rightarrow> js_string" where
  "padding [] = []"
| "padding [a] = [61, 61]"
| "padding [a, b] = [61]"
| "padding (a # b # c # bs) = padding bs"

lemma base64_encode_split: "base64_encode bs = map base64_char (sextets bs) @ padding bs"
  by (induction bs rule: base64_encode.induct) simp_all

lemma sextets_bound: "\<forall>b \<in> set bs. b < 256 \<Longrightarrow> \<forall>x \<in> set (sextets bs). x < 64"
  by (induction bs rule: sextets.induct) (auto simp: less_mult_imp_div_less)

lemma base64_group:
  fixes a b c :: nat
  assumes "b < 256" and "c < 256"
  shows "a div 4 * 4 + (a mod 4 * 16 + b div 16) div 16 = a
    \<and> (a mod 4 * 16 + b div 16) mod 16 * 16 + (b mod 16 * 4 + c div 64) div 4 = b
    \<and> (b mod 16 * 4 + c div 64) mod 4 * 64 + c mod 64 = c"
proof -
  from assms have d: "b div 16 < 16" "c div 64 < 4" by simp_all
  then have e: "(a mod 4 * 16 + b div 16) mod 16 = b div 16"
    "(b mod 16 * 4 + c div 64) div 4 = b mod 16"
    "(b mod 16 * 4 + c div 64) mod 4 = c div 64"
    by simp_all
  from assms have 1: "a div 4 * 4 + (a mod 4 * 16 + b div 16) div 16 = a" by simp
  from e have 2: "(a mod 4 * 16 + b div 16) mod 16 * 16 + (b mod 16 * 4 + c div 64) div 4 = b"
    by simp
  from e have 3: "(b mod 16 * 4 + c div 64) mod 4 * 64 + c mod 64 = c" by simp
  from 1 2 3 show ?thesis by simp
qed

lemma base64_decode_sextets: "\<forall>b \<in> set bs. b < 256 \<Longrightarrow> base64_decode (sextets bs) = bs"
proof (induction bs rule: sextets.induct)
  case (4 a b c bs)
  then have "a < 256" "b < 256" "c < 256" by simp_all
  with base64_group [where a = a and b = b and c = c] 4 show ?case by simp
next
  case (3 a b)
  then have "a < 256" "b < 256" by simp_all
  with base64_group [where a = a and b = b and c = 0] show ?case by simp
next
  case (2 a)
  then have "a < 256" by simp
  with base64_group [where a = a and b = 0 and c = 0] show ?case by simp
qed simp

lemma base64_char_props:
  assumes "n < 64"
  shows "base64_index (base64_char n) = Some n" "\<not> is_ascii_whitespace (base64_char n)"
    "base64_char n \<noteq> 61"
proof -
  have u: "\<And>m. m < 65536 \<Longrightarrow> unat (of_nat m :: 16 word) = m"
    by (simp add: unat_of_nat)
  consider "n < 26" | "26 \<le> n" "n < 52" | "52 \<le> n" "n < 62" | "n = 62" | "n = 63"
    using assms by linarith
  then have "base64_index (base64_char n) = Some n \<and> \<not> is_ascii_whitespace (base64_char n) \<and>
    base64_char n \<noteq> 61"
  proof cases
    case 1
    then have "unat (base64_char n) = 65 + n" using u [of "65 + n"] by (simp add: base64_char_def)
    with 1 show ?thesis
      by (auto simp: base64_index_def is_ascii_whitespace_def word_le_nat_alt word_unat_eq_iff)
  next
    case 2
    then have "unat (base64_char n) = 97 + (n - 26)"
      using u [of "97 + (n - 26)"] by (simp add: base64_char_def)
    with 2 show ?thesis
      by (auto simp: base64_index_def is_ascii_whitespace_def word_le_nat_alt word_unat_eq_iff)
  next
    case 3
    then have "unat (base64_char n) = 48 + (n - 52)"
      using u [of "48 + (n - 52)"] by (simp add: base64_char_def)
    with 3 show ?thesis
      by (auto simp: base64_index_def is_ascii_whitespace_def word_le_nat_alt word_unat_eq_iff)
  next
    case 4
    then show ?thesis by (simp add: base64_char_def base64_index_def is_ascii_whitespace_def)
  next
    case 5
    then show ?thesis by (simp add: base64_char_def base64_index_def is_ascii_whitespace_def)
  qed
  then show "base64_index (base64_char n) = Some n" "\<not> is_ascii_whitespace (base64_char n)"
    "base64_char n \<noteq> 61" by simp_all
qed

lemma those_base64_index:
  "\<forall>x \<in> set ds. x < 64 \<Longrightarrow> those (map base64_index (map base64_char ds)) = Some ds"
  by (induction ds) (simp_all add: base64_char_props)

lemma length_sextets_padding: "(length (sextets bs) + length (padding bs)) mod 4 = 0"
  by (induction bs rule: sextets.induct) simp_all

lemma length_sextets_mod: "length (sextets bs) mod 4 \<noteq> 1"
  by (induction bs rule: sextets.induct) simp_all

lemma padding_cases: "padding bs = [] \<or> padding bs = [61] \<or> padding bs = [61, 61]"
  by (induction bs rule: padding.induct) simp_all

lemma padding_sextets: "padding bs \<noteq> [] \<Longrightarrow> 2 \<le> length (sextets bs)"
  by (induction bs rule: sextets.induct) simp_all

lemma strip_padding_encode:
  assumes "\<forall>x \<in> set (sextets bs). x < 64"
  shows "strip_padding (map base64_char (sextets bs) @ padding bs) = map base64_char (sextets bs)"
proof -
  let ?d = "map base64_char (sextets bs)"
  have l: "length (?d @ padding bs) mod 4 = 0" using length_sextets_padding [of bs] by simp
  have ne: "\<forall>c \<in> set ?d. c \<noteq> 61" using assms by (auto simp: base64_char_props)
  from padding_cases [of bs] show ?thesis
  proof (elim disjE)
    assume p: "padding bs = []"
    show ?thesis
    proof (cases "rev ?d")
      case Nil
      then show ?thesis using p by (simp add: strip_padding_def)
    next
      case (Cons c r)
      then have "c \<in> set ?d" by (metis list.set_intros(1) set_rev)
      with ne have "c \<noteq> 61" by blast
      with Cons l p show ?thesis by (simp add: strip_padding_def split: list.splits)
    qed
  next
    assume p: "padding bs = [61]"
    then have "2 \<le> length (sextets bs)" using padding_sextets [of bs] by simp
    then obtain c r where r: "rev ?d = c # r" by (cases "rev ?d") auto
    then have "c \<in> set ?d" by (metis list.set_intros(1) set_rev)
    with ne have c: "c \<noteq> 61" by blast
    from r have "?d = rev (c # r)" by (metis rev_rev_ident)
    with r c l p show ?thesis by (simp add: strip_padding_def)
  next
    assume p: "padding bs = [61, 61]"
    with l show ?thesis by (simp add: strip_padding_def)
  qed
qed

lemma atob_base64_encode:
  assumes "\<forall>b \<in> set bs. b < 256"
  shows "atob (base64_encode bs) = Inr (map of_nat bs)"
proof -
  let ?d = "map base64_char (sextets bs)"
  from sextets_bound [OF assms] have sb: "\<forall>x \<in> set (sextets bs). x < 64" .
  have pw: "\<forall>c \<in> set (padding bs). \<not> is_ascii_whitespace c"
    using padding_cases [of bs] by (auto simp: is_ascii_whitespace_def)
  have f: "filter (\<lambda>c. \<not> is_ascii_whitespace c) (base64_encode bs) = ?d @ padding bs"
    unfolding base64_encode_split using sb pw by (auto simp: base64_char_props filter_id_conv)
  show ?thesis
    unfolding atob_def f strip_padding_encode [OF sb]
    using length_sextets_mod [of bs]
    by (simp add: those_base64_index [OF sb, simplified] base64_decode_sextets [OF assms])
qed

lemma atob_btoa:
  fixes bs :: bytes
  shows "btoa (map ucast bs) = Inr (base64_encode (map unat bs)) \<and>
         atob (base64_encode (map unat bs)) = Inr (map ucast bs) \<and>
         Uint8Array_from_charCodes (map ucast bs) = bs"
proof -
  let ?s = "map ucast bs :: js_string"
  have u: "\<And>b :: 8 word. unat (ucast b :: 16 word) = unat b"
    by transfer simp
  have lt: "unat b < 256" for b :: "8 word" using unsigned_less [of b, where 'a = nat] by simp
  have le: "unat b \<le> 255" for b :: "8 word" using lt [of b] by simp
  have a: "\<not> (\<exists>c \<in> set ?s. 0xFF < c)"
    by (auto simp: word_less_nat_alt u not_less le)
  have m: "map unat ?s = map unat bs"
    by (simp add: u)
  have b: "\<forall>b \<in> set (map unat bs). b < 256" by (auto simp: lt)
  have c: "(map of_nat (map unat bs) :: js_string) = ?s"
    by simp
  have "(ucast (ucast b :: 16 word) :: 8 word) = b" for b :: "8 word"
    by (simp add: ucast_up_ucast_id is_up)
  then have d: "Uint8Array_from_charCodes ?s = bs"
    by (simp add: Uint8Array_from_charCodes_def map_idI)
  have 1: "btoa ?s = Inr (base64_encode (map unat bs))"
    using a by (simp add: btoa_def o_def u)
  have 2: "atob (base64_encode (map unat bs)) = Inr ?s"
    using atob_base64_encode [OF b] c by simp
  from 1 2 d show ?thesis by blast
qed

subsection \<open>Opening a sealed text\<close>

lemma slices:
  assumes "length salt = 16" and "length iv = 12"
  shows "take 16 (salt @ iv @ ct) = salt" "take 12 (drop 16 (salt @ iv @ ct)) = iv"
    "drop 28 (salt @ iv @ ct) = ct"
  using assms by simp_all

lemma encryptText_result:
  assumes "salt = fst (getRandomValues rng 16)"
    and "iv = fst (getRandomValues (snd (getRandomValues rng 16)) 12)"
    and "ct = aes_gcm_encrypt B (deriveKey B k salt) iv (TextEncoder_encode p)"
  shows "encryptText B rng p k =
           (if argument_limit B < length (salt @ iv @ ct) then Inl RangeError
            else Inr (base64_encode (map unat (salt @ iv @ ct))))"
proof -
  have "encryptText B rng p k =
     (case String_fromCharCode B (salt @ iv @ ct) of Inl e \<Rightarrow> Inl e | Inr s \<Rightarrow> btoa s)"
    unfolding assms(3) assms(1) assms(2) by (rule encryptText_combined)
  moreover have "btoa (map ucast (salt @ iv @ ct)) = Inr (base64_encode (map unat (salt @ iv @ ct)))"
    using atob_btoa [of "salt @ iv @ ct"] by blast
  ultimately show ?thesis by (simp add: String_fromCharCode_def)
qed

lemma decryptText_blob:
  assumes "length salt = 16" and "length iv = 12"
  shows "decryptText B (base64_encode (map unat (salt @ iv @ ct))) k' =
       (case aes_gcm_decrypt B (deriveKey B k' salt) iv ct of
          None \<Rightarrow> Inl OperationError
        | Some decrypted \<Rightarrow> Inr (TextDecoder_decode decrypted))"
proof -
  from atob_btoa [of "salt @ iv @ ct"]
  have a: "atob (base64_encode (map unat (salt @ iv @ ct))) = Inr (map ucast (salt @ iv @ ct))"
    and u: "Uint8Array_from_charCodes (map ucast (salt @ iv @ ct)) = salt @ iv @ ct"
    by blast+
  show ?thesis
    unfolding decryptText_def a
    by (simp only: sum.case Let_def u slices [OF assms])
qed

subsection \<open>Which texts survive the text codec\<close>

text \<open>
  A string is well formed when every high surrogate is followed by a low surrogate and
  every low surrogate follows a high one. A scalar value is a code point that is not a
  surrogate.
\<close>

fun well_formed :: "js_string \<Rightarrow> bool" where
  "well_formed [] = True"
| "well_formed [c] = (\<not> is_high_surrogate c \<and> \<not> is_low_surrogate c)"
| "well_formed (c # d # cs) =
     (if is_high_surrogate c then is_low_surrogate d \<and> well_formed cs
      else \<not> is_low_surrogate c \<and> well_formed (d # cs))"

definition is_scalar :: "nat \<Rightarrow> bool" where
  "is_scalar cp \<longleftrightarrow> cp < 0x110000 \<and> \<not> (0xD800 \<le> cp \<and> cp \<le> 0xDFFF)"

lemma byte_val: "m < 256 \<Longrightarrow> unat (of_nat m :: 8 word) = m"
  by (simp add: unat_of_nat)

lemma and_masks:
  fixes b :: "8 word"
  shows "unat (b AND 0x3F) = unat b mod 64" "unat (b AND 0x1F) = unat b mod 32"
    "unat (b AND 0xF) = unat b mod 16" "unat (b AND 0x7) = unat b mod 8"
proof -
  have m: "(0x3F :: 8 word) = mask 6" "(0x1F :: 8 word) = mask 5" "(0xF :: 8 word) = mask 4"
    "(0x7 :: 8 word) = mask 3"
    by (simp_all add: mask_eq_exp_minus_1)
  have t: "unat (take_bit n b) = unat b mod 2 ^ n" for n
    unfolding unsigned_take_bit_eq by (rule take_bit_eq_mod)
  show "unat (b AND 0x3F) = unat b mod 64" unfolding m take_bit_eq_mask [symmetric] t by simp
  show "unat (b AND 0x1F) = unat b mod 32" unfolding m take_bit_eq_mask [symmetric] t by simp
  show "unat (b AND 0xF) = unat b mod 16" unfolding m take_bit_eq_mask [symmetric] t by simp
  show "unat (b AND 0x7) = unat b mod 8" unfolding m take_bit_eq_mask [symmetric] t by simp
qed

lemmas byte_cmp = in_range_def word_le_nat_alt word_unat_eq_iff

lemma digits3:
  fixes cp :: nat
  shows "cp = cp div 4096 * 4096 + cp div 64 mod 64 * 64 + cp mod 64"
proof -
  have 1: "cp = 64 * (cp div 64) + cp mod 64" by simp
  have 2: "cp div 64 = 64 * (cp div 64 div 64) + cp div 64 mod 64" by simp
  have 3: "cp div 64 div 64 = cp div 4096" by (simp add: div_mult2_eq)
  from 1 2 3 show ?thesis by linarith
qed

lemma digits4:
  fixes cp :: nat
  shows "cp = cp div 262144 * 262144 + cp div 4096 mod 64 * 4096 + cp div 64 mod 64 * 64 + cp mod 64"
proof -
  have 1: "cp div 4096 = 64 * (cp div 4096 div 64) + cp div 4096 mod 64" by simp
  have 2: "cp div 4096 div 64 = cp div 262144" by (simp add: div_mult2_eq)
  from digits3 [of cp] 1 2 show ?thesis by linarith
qed

lemma lo3:
  fixes cp :: nat
  assumes "cp div 4096 = 0" "0x800 \<le> cp"
  shows "32 \<le> cp div 64 mod 64"
proof -
  have "cp mod 64 < 64" by simp
  with assms digits3 [of cp] show ?thesis by linarith
qed

lemma hi3:
  fixes cp :: nat
  assumes "cp div 4096 = 13" "cp < 0xD800"
  shows "cp div 64 mod 64 \<le> 31"
proof -
  from assms digits3 [of cp] show ?thesis by linarith
qed

lemma lead_mod:
  fixes q :: nat
  shows "q < 16 \<Longrightarrow> (224 + q) mod 16 = q" "q < 8 \<Longrightarrow> (240 + q) mod 8 = q"
    "q < 32 \<Longrightarrow> (192 + q) mod 32 = q"
    "(128 + q mod 64) mod 64 = q mod 64"
proof -
  have a: "(k * m + r) mod m = r mod m" for k m r :: nat by simp
  show "q < 16 \<Longrightarrow> (224 + q) mod 16 = q" using a [of 14 16 q] by simp
  show "q < 8 \<Longrightarrow> (240 + q) mod 8 = q" using a [of 30 8 q] by simp
  show "q < 32 \<Longrightarrow> (192 + q) mod 32 = q" using a [of 6 32 q] by simp
  show "(128 + q mod 64) mod 64 = q mod 64" using a [of 2 64 "q mod 64"] by simp
qed

lemma lo4:
  fixes cp :: nat
  assumes "cp div 262144 = 0" "0x10000 \<le> cp"
  shows "16 \<le> cp div 4096 mod 64"
proof -
  have "cp mod 64 < 64" "cp div 64 mod 64 < 64" by simp_all
  with assms digits4 [of cp] show ?thesis by linarith
qed

lemma hi4:
  fixes cp :: nat
  assumes "cp div 262144 = 4" "cp < 0x110000"
  shows "cp div 4096 mod 64 \<le> 15"
proof -
  from assms digits4 [of cp] show ?thesis by linarith
qed

lemma decode_1:
  assumes "cp < 0x80"
  shows "utf8_decode (utf8_encode_scalar cp @ rest) = cp # utf8_decode rest"
proof -
  from assms have "unat (of_nat cp :: 8 word) = cp" by (simp add: byte_val)
  with assms show ?thesis by (simp add: utf8_encode_scalar_def byte_cmp)
qed

lemma decode_2:
  assumes "0x80 \<le> cp" "cp < 0x800"
  shows "utf8_decode (utf8_encode_scalar cp @ rest) = cp # utf8_decode rest"
proof -
  define b :: "8 word" where "b = of_nat (0xC0 + cp div 0x40)"
  define c :: "8 word" where "c = of_nat (0x80 + cp mod 0x40)"
  from assms have ub: "unat b = 0xC0 + cp div 0x40" unfolding b_def by (intro byte_val) simp
  have uc: "unat c = 0x80 + cp mod 0x40" unfolding c_def by (intro byte_val) simp
  have e: "utf8_encode_scalar cp = [b, c]"
    using assms by (simp add: utf8_encode_scalar_def b_def c_def)
  from assms have r: "2 \<le> cp div 64" "cp div 64 < 32" by simp_all
  have lead: "\<not> b \<le> 0x7F" "in_range b 0xC2 0xDF"
    using r by (simp_all add: byte_cmp ub)
  have cont: "in_range c 0x80 0xBF"
    using mod_less_divisor [of 64 cp] by (simp add: byte_cmp uc)
  have val: "unat (b AND 0x1F) * 0x40 + unat (c AND 0x3F) = cp"
    using r by (simp add: ub uc and_masks lead_mod)
  show ?thesis unfolding e by (simp add: lead cont val)
qed

lemma decode_3:
  assumes "0x800 \<le> cp" "cp < 0x10000" "\<not> (0xD800 \<le> cp \<and> cp \<le> 0xDFFF)"
  shows "utf8_decode (utf8_encode_scalar cp @ rest) = cp # utf8_decode rest"
proof -
  define b :: "8 word" where "b = of_nat (0xE0 + cp div 0x1000)"
  define c :: "8 word" where "c = of_nat (0x80 + cp div 0x40 mod 0x40)"
  define d :: "8 word" where "d = of_nat (0x80 + cp mod 0x40)"
  from assms have ub: "unat b = 0xE0 + cp div 0x1000" unfolding b_def by (intro byte_val) simp
  have uc: "unat c = 0x80 + cp div 0x40 mod 0x40" unfolding c_def by (intro byte_val) simp
  have ud: "unat d = 0x80 + cp mod 0x40" unfolding d_def by (intro byte_val) simp
  have e: "utf8_encode_scalar cp = [b, c, d]"
    using assms by (simp add: utf8_encode_scalar_def b_def c_def d_def)
  from assms have r: "cp div 4096 < 16" by simp
  have bnd: "cp mod 64 \<le> 63" "cp div 64 mod 64 \<le> 63"
    using mod_less_divisor [of 64 cp] mod_less_divisor [of 64 "cp div 64"] by simp_all
  have lo: "cp div 4096 = 0 \<Longrightarrow> 32 \<le> cp div 64 mod 64" using assms by (simp add: lo3)
  have hi: "cp div 4096 = 13 \<Longrightarrow> cp div 64 mod 64 \<le> 31"
  proof -
    assume q: "cp div 4096 = 13"
    with digits3 [of cp] bnd have "0xD000 \<le> cp" "cp < 0xE000" by linarith+
    with assms have "cp < 0xD800" by linarith
    with q show ?thesis by (simp add: hi3)
  qed
  have lead: "\<not> b \<le> 0x7F" "\<not> in_range b 0xC2 0xDF" "in_range b 0xE0 0xEF"
    using r by (simp_all add: byte_cmp ub)
  have c1: "in_range c (lower_boundary b) (upper_boundary b)"
    using r lo hi bnd by (simp add: byte_cmp ub uc lower_boundary_def upper_boundary_def)
  have c2: "in_range d 0x80 0xBF"
    using bnd by (simp add: byte_cmp ud)
  have val: "unat (b AND 0xF) * 0x1000 + unat (c AND 0x3F) * 0x40 + unat (d AND 0x3F) = cp"
    using r digits3 [of cp] by (simp add: ub uc ud and_masks lead_mod)
  show ?thesis unfolding e by (simp add: lead c1 c2 val)
qed

lemma decode_4:
  assumes "0x10000 \<le> cp" "cp < 0x110000"
  shows "utf8_decode (utf8_encode_scalar cp @ rest) = cp # utf8_decode rest"
proof -
  define b :: "8 word" where "b = of_nat (0xF0 + cp div 0x40000)"
  define c :: "8 word" where "c = of_nat (0x80 + cp div 0x1000 mod 0x40)"
  define d :: "8 word" where "d = of_nat (0x80 + cp div 0x40 mod 0x40)"
  define f :: "8 word" where "f = of_nat (0x80 + cp mod 0x40)"
  from assms have ub: "unat b = 0xF0 + cp div 0x40000" unfolding b_def by (intro byte_val) simp
  have uc: "unat c = 0x80 + cp div 0x1000 mod 0x40" unfolding c_def by (intro byte_val) simp
  have ud: "unat d = 0x80 + cp div 0x40 mod 0x40" unfolding d_def by (intro byte_val) simp
  have uf: "unat f = 0x80 + cp mod 0x40" unfolding f_def by (intro byte_val) simp
  have e: "utf8_encode_scalar cp = [b, c, d, f]"
    using assms by (simp add: utf8_encode_scalar_def b_def c_def d_def f_def)
  from assms have r: "cp div 262144 \<le> 4" by simp
  then have r8: "cp div 262144 < 8" by simp
  have bnd: "cp mod 64 \<le> 63" "cp div 64 mod 64 \<le> 63" "cp div 4096 mod 64 \<le> 63"
    using mod_less_divisor [of 64 cp] mod_less_divisor [of 64 "cp div 64"]
      mod_less_divisor [of 64 "cp div 4096"] by simp_all
  have lo: "cp div 262144 = 0 \<Longrightarrow> 16 \<le> cp div 4096 mod 64" using assms by (simp add: lo4)
  have hi: "cp div 262144 = 4 \<Longrightarrow> cp div 4096 mod 64 \<le> 15" using assms by (simp add: hi4)
  have lead: "\<not> b \<le> 0x7F" "\<not> in_range b 0xC2 0xDF" "\<not> in_range b 0xE0 0xEF"
    "in_range b 0xF0 0xF4"
    using r by (simp_all add: byte_cmp ub)
  have c1: "in_range c (lower_boundary b) (upper_boundary b)"
    using r lo hi bnd by (simp add: byte_cmp ub uc lower_boundary_def upper_boundary_def)
  have c2: "in_range d 0x80 0xBF" "in_range f 0x80 0xBF"
    using bnd by (simp_all add: byte_cmp ud uf)
  have val: "unat (b AND 0x7) * 0x40000 + unat (c AND 0x3F) * 0x1000
               + unat (d AND 0x3F) * 0x40 + unat (f AND 0x3F) = cp"
    using r8 digits4 [of cp] by (simp add: ub uc ud uf and_masks lead_mod)
  show ?thesis unfolding e by (simp add: lead c1 c2 val)
qed

lemma decode_scalar:
  "is_scalar cp \<Longrightarrow> utf8_decode (utf8_encode_scalar cp @ rest) = cp # utf8_decode rest"
  using decode_1 [of cp rest] decode_2 [of cp rest] decode_3 [of cp rest] decode_4 [of cp rest]
  unfolding is_scalar_def by linarith

lemma decode_scalars:
  "\<forall>cp \<in> set cps. is_scalar cp \<Longrightarrow>
     utf8_decode (concat (map utf8_encode_scalar cps)) = cps"
  by (induction cps) (simp_all add: decode_scalar)

lemma unit_lt: "unat (c :: 16 word) < 65536"
  using unsigned_less [of c, where 'a = nat] by simp

lemmas surrogate_defs = is_high_surrogate_def is_low_surrogate_def word_le_nat_alt

lemma scalar_unit:
  "\<not> is_high_surrogate c \<Longrightarrow> \<not> is_low_surrogate c \<Longrightarrow> is_scalar (unat c)"
  using unit_lt [of c] by (auto simp: surrogate_defs is_scalar_def)

lemma scalar_pair:
  assumes "is_high_surrogate c" "is_low_surrogate d"
  shows "is_scalar (0x10000 + (unat c - 0xD800) * 0x400 + (unat d - 0xDC00))"
    and "utf16_encode_scalar (0x10000 + (unat c - 0xD800) * 0x400 + (unat d - 0xDC00)) = [c, d]"
proof -
  from assms have c: "0xD800 \<le> unat c" "unat c \<le> 0xDBFF" and d: "0xDC00 \<le> unat d" "unat d \<le> 0xDFFF"
    by (simp_all add: surrogate_defs)
  define x where "x = unat c - 0xD800"
  define y where "y = unat d - 0xDC00"
  from c d have xy: "x < 0x400" "y < 0x400" "unat c = 0xD800 + x" "unat d = 0xDC00 + y"
    by (simp_all add: x_def y_def)
  then show "is_scalar (0x10000 + (unat c - 0xD800) * 0x400 + (unat d - 0xDC00))"
    by (simp add: is_scalar_def)
  have dm: "(x * 0x400 + y) div 0x400 = x" "(x * 0x400 + y) mod 0x400 = y" using xy by simp_all
  have i: "(of_nat (unat w) :: 16 word) = w" for w by simp
  have "of_nat (0xD800 + x) = c" "of_nat (0xDC00 + y) = d"
    using i [of c] i [of d] unfolding xy(3,4) by blast+
  with dm xy show "utf16_encode_scalar (0x10000 + (unat c - 0xD800) * 0x400 + (unat d - 0xDC00)) = [c, d]"
    by (simp add: utf16_encode_scalar_def)
qed

lemma utf16_unit: "utf16_encode_scalar (unat (c :: 16 word)) = [c]"
  using unit_lt [of c] by (simp add: utf16_encode_scalar_def)

lemma utf16_replacement: "utf16_encode_scalar 0xFFFD = [0xFFFD]"
  by (simp add: utf16_encode_scalar_def)

lemma scalar_replacement: "is_scalar 0xFFFD"
  by (simp add: is_scalar_def)

lemma scalar_values_scalar: "\<forall>cp \<in> set (scalar_values s). is_scalar cp"
  by (induction s rule: scalar_values.induct)
     (auto simp: scalar_unit scalar_pair scalar_replacement)

lemma utf8_decode_encode: "utf8_decode (TextEncoder_encode s) = scalar_values s"
  unfolding TextEncoder_encode_def by (rule decode_scalars) (rule scalar_values_scalar)

lemma surrogate_not_replacement:
  "is_high_surrogate c \<or> is_low_surrogate c \<Longrightarrow> c \<noteq> 0xFFFD"
  by (auto simp: surrogate_defs)

lemma utf16_scalar_values: "concat (map utf16_encode_scalar (scalar_values s)) = s \<longleftrightarrow> well_formed s"
proof (induction s rule: scalar_values.induct)
  case 1
  then show ?case by simp
next
  case (2 c)
  then show ?case
    using surrogate_not_replacement [of c]
    by (auto simp: utf16_unit utf16_replacement)
next
  case (3 c d cs)
  then show ?case
    using surrogate_not_replacement [of c]
    by (auto simp: utf16_unit utf16_replacement scalar_pair)
qed

lemma length_utf16_scalar_values: "length (concat (map utf16_encode_scalar (scalar_values s))) = length s"
  by (induction s rule: scalar_values.induct)
     (auto simp: utf16_unit utf16_replacement scalar_pair)

lemma scalar_values_head:
  "scalar_values (c # cs) = 0xFEFF # r \<longleftrightarrow> c = 0xFEFF \<and> r = scalar_values cs"
proof -
  have bom: "\<not> is_high_surrogate 0xFEFF" "\<not> is_low_surrogate 0xFEFF" by (simp_all add: surrogate_defs)
  have u: "unat c = 0xFEFF \<longleftrightarrow> c = 0xFEFF" by (simp add: word_unat_eq_iff)
  show ?thesis
  proof (cases cs)
    case Nil
    then show ?thesis using bom u by auto
  next
    case (Cons d ds)
    then show ?thesis using bom u by auto
  qed
qed

lemma text_codec_roundtrip:
  "TextDecoder_decode (TextEncoder_encode s) = s \<longleftrightarrow> well_formed s \<and> take 1 s \<noteq> [0xFEFF]"
proof (cases s)
  case Nil
  then show ?thesis
    by (simp add: TextDecoder_decode_def TextEncoder_encode_def)
next
  case (Cons c cs)
  show ?thesis
  proof (cases "c = 0xFEFF")
    case True
    with Cons have sv: "scalar_values s = 0xFEFF # scalar_values cs"
      using scalar_values_head [of c cs "scalar_values cs"] by simp
    have "length (TextDecoder_decode (TextEncoder_encode s)) = length cs"
      by (simp add: TextDecoder_decode_def utf8_decode_encode sv length_utf16_scalar_values)
    with Cons have "TextDecoder_decode (TextEncoder_encode s) \<noteq> s" by auto
    with Cons True show ?thesis by simp
  next
    case False
    have "strip_bom (scalar_values s) = scalar_values s"
    proof (cases "scalar_values s")
      case Nil
      then show ?thesis by simp
    next
      case (Cons x xs)
      with \<open>s = c # cs\<close> False scalar_values_head [of c cs xs] have "x \<noteq> 0xFEFF" by auto
      with Cons show ?thesis by simp
    qed
    then have "TextDecoder_decode (TextEncoder_encode s) = concat (map utf16_encode_scalar (scalar_values s))"
      by (simp add: TextDecoder_decode_def utf8_decode_encode)
    with Cons False show ?thesis by (simp add: utf16_scalar_values)
  qed
qed

subsection \<open>Round trip and layout\<close>

lemma sample_decode: "TextDecoder_decode (TextEncoder_encode [0xFEFF, 0x41]) = [0x41]"
  by (simp add: crypto_eval)

lemma scalar_values_ascii: "scalar_values (0x41 # cs) = 0x41 # scalar_values cs"
  by (cases cs) (simp_all add: is_high_surrogate_def is_low_surrogate_def)

lemma length_encode_ascii: "length (TextEncoder_encode (replicate n 0x41)) = n"
proof -
  have "scalar_values (replicate n 0x41) = replicate n 0x41"
    by (induction n) (simp_all add: scalar_values_ascii)
  then show ?thesis
    by (simp add: TextEncoder_encode_def utf8_encode_scalar_def length_concat sum_list_replicate)
qed

text \<open>
  When \<open>encryptText\<close> returns a blob and AES-GCM decryption inverts encryption,
  \<open>decryptText\<close> with the same passphrase returns
  \<open>TextDecoder.decode(TextEncoder.encode(p))\<close>.
\<close>

lemma decryptText_encryptText:
  assumes "aead_correct B" and "encryptText B rng p k = Inr blob"
  shows "decryptText B blob k = Inr (TextDecoder_decode (TextEncoder_encode p))"
proof -
  define salt where "salt = fst (getRandomValues rng 16)"
  define iv where "iv = fst (getRandomValues (snd (getRandomValues rng 16)) 12)"
  define ct where "ct = aes_gcm_encrypt B (deriveKey B k salt) iv (TextEncoder_encode p)"
  have l: "length salt = 16" "length iv = 12"
    by (simp_all add: salt_def iv_def length_getRandomValues)
  from assms(2) encryptText_result [OF salt_def iv_def ct_def]
  have b: "blob = base64_encode (map unat (salt @ iv @ ct))"
    by (simp split: if_splits)
  from assms(1) have "aes_gcm_decrypt B (deriveKey B k salt) iv ct = Some (TextEncoder_encode p)"
    by (simp add: aead_correct_def ct_def)
  then show ?thesis
    unfolding b decryptText_blob [OF l] by simp
qed

text \<open>
  That is the plaintext exactly when the plaintext is well-formed UTF-16 and does not begin
  with U+FEFF.
\<close>

lemma decryptText_encryptText_iff:
  assumes "aead_correct B" and "encryptText B rng p k = Inr blob"
  shows "decryptText B blob k = Inr p \<longleftrightarrow> well_formed p \<and> take 1 p \<noteq> [0xFEFF]"
  unfolding decryptText_encryptText [OF assms] using text_codec_roundtrip [of p] by simp

text \<open>
  Claim C6 (decrypting the output of \<open>encryptText\<close> with the same passphrase returns the
  plaintext, for every plaintext and passphrase) does not hold of the code. For the
  plaintext U+FEFF ``A'', \<open>decryptText\<close> returns ``A'': \<open>new TextDecoder().decode\<close>
  drops a byte order mark at the start of what it decodes. For a plaintext of 65536
  characters ``A'', on an engine whose calls take 65536 arguments, \<open>encryptText\<close>
  returns no blob: with salt, nonce and tag there are 65580 bytes to encode, and the call
  \<open>String.fromCharCode(...combined)\<close> throws a \<open>RangeError\<close>.
\<close>

theorem seal_open_failing_inputs:
  "aead_correct sample_browser
   \<and> well_formed [0xFEFF, 0x41]
   \<and> (\<exists>blob. encryptText sample_browser sample_random [0xFEFF, 0x41] (js_literal ''k'')
                 = Inr blob
             \<and> decryptText sample_browser blob (js_literal ''k'') = Inr [0x41]
             \<and> decryptText sample_browser blob (js_literal ''k'') \<noteq> Inr [0xFEFF, 0x41])
   \<and> argument_limit sample_browser = 65536
   \<and> well_formed (replicate 65536 0x41)
   \<and> encryptText sample_browser sample_random (replicate 65536 0x41) (js_literal ''k'')
        = Inl RangeError"
proof -
  have w: "well_formed [0xFEFF, 0x41]"
    by (simp add: is_high_surrogate_def is_low_surrogate_def)
  have 2: "argument_limit sample_browser = 65536" by (simp add: sample_browser_def)
  have len: "length (aes_gcm_encrypt sample_browser key iv d) = length d + 16" for key iv d
    by (simp add: sample_browser_def keystream_length sample_tag_def)
  have "length (TextEncoder_encode [0xFEFF, 0x41]) = 4"
    by (simp add: crypto_eval)
  then have "\<exists>blob. encryptText sample_browser sample_random [0xFEFF, 0x41] (js_literal ''k'')
      = Inr blob"
    unfolding encryptText_result [OF refl refl refl]
    by (simp add: 2 len length_getRandomValues)
  then obtain blob where
    e: "encryptText sample_browser sample_random [0xFEFF, 0x41] (js_literal ''k'') = Inr blob"
    by blast
  from decryptText_encryptText [OF aead_correct_sample e]
  have d: "decryptText sample_browser blob (js_literal ''k'') = Inr [0x41]"
    by (simp add: sample_decode)
  from e d have 1: "\<exists>blob. encryptText sample_browser sample_random [0xFEFF, 0x41]
                 (js_literal ''k'') = Inr blob
             \<and> decryptText sample_browser blob (js_literal ''k'') = Inr [0x41]
             \<and> decryptText sample_browser blob (js_literal ''k'') \<noteq> Inr [0xFEFF, 0x41]"
    by auto
  have wa: "well_formed (0x41 # cs) = well_formed cs" for cs
    by (cases cs) (simp_all add: is_high_surrogate_def is_low_surrogate_def)
  have "well_formed (replicate n 0x41)" for n
    by (induction n) (simp_all add: wa)
  then have 3: "well_formed (replicate 65536 0x41)" .
  have 4: "encryptText sample_browser sample_random (replicate 65536 0x41) (js_literal ''k'')
        = Inl RangeError"
    unfolding encryptText_result [OF refl refl refl]
    by (simp add: 2 len length_encode_ascii length_getRandomValues)
  from aead_correct_sample w 1 2 3 4 show ?thesis by blast
qed

text \<open>
  Claim C7 as stated (the stored blob is, byte for byte, salt, nonce, ciphertext and tag)
  fails: what \<open>encryptText\<close> returns and the caller stores is the Base64 text of those
  bytes. For the 47 bytes of the example the stored string has 64 characters, and its first
  16 are not the salt.
\<close>

theorem blob_layout_counterexample:
  "encryptText sample_browser sample_random (js_literal ''NDA'') (js_literal ''k'')
     = Inr sample_blob
   \<and> fst (getRandomValues sample_random 16) = sample_salt
   \<and> fst (getRandomValues (snd (getRandomValues sample_random 16)) 12) = sample_iv
   \<and> sample_blob \<noteq> map ucast (sample_salt @ sample_iv @
        aes_gcm_encrypt sample_browser (deriveKey sample_browser (js_literal ''k'') sample_salt)
          sample_iv (TextEncoder_encode (js_literal ''NDA'')))
   \<and> length sample_blob = 64
   \<and> length (sample_salt @ sample_iv @
        aes_gcm_encrypt sample_browser (deriveKey sample_browser (js_literal ''k'') sample_salt)
          sample_iv (TextEncoder_encode (js_literal ''NDA''))) = 47
   \<and> take 16 (Uint8Array_from_charCodes sample_blob) \<noteq> sample_salt"
proof -
  have l: "length sample_blob = 64" by (simp add: sample_blob_def js_literal_def)
  have m: "length (sample_salt @ sample_iv @
        aes_gcm_encrypt sample_browser (deriveKey sample_browser (js_literal ''k'') sample_salt)
          sample_iv (TextEncoder_encode (js_literal ''NDA''))) = 47"
    unfolding sample_ct by (simp add: sample_lengths)
  have n: "sample_blob \<noteq> map ucast (sample_salt @ sample_iv @
        aes_gcm_encrypt sample_browser (deriveKey sample_browser (js_literal ''k'') sample_salt)
          sample_iv (TextEncoder_encode (js_literal ''NDA'')))"
  proof
    assume "sample_blob = map ucast (sample_salt @ sample_iv @
        aes_gcm_encrypt sample_browser (deriveKey sample_browser (js_literal ''k'') sample_salt)
          sample_iv (TextEncoder_encode (js_literal ''NDA'')))"
    then have "length sample_blob = length (sample_salt @ sample_iv @
        aes_gcm_encrypt sample_browser (deriveKey sample_browser (js_literal ''k'') sample_salt)
          sample_iv (TextEncoder_encode (js_literal ''NDA'')))"
      by (metis length_map)
    with l m show False by simp
  qed
  have t: "take 16 (Uint8Array_from_charCodes sample_blob) \<noteq> sample_salt"
    by (simp add: sample_blob_def js_literal_def Uint8Array_from_charCodes_def sample_salt_def
        replicate_numeral)
  from sample_encrypt sample_draws n l m t show ?thesis by blast
qed

text \<open>
  Claim C7, amended. Every blob \<open>encryptText\<close> returns is the Base64 encoding (\<open>btoa\<close>)
  of salt, nonce, AES-GCM ciphertext and tag, in this order, where the salt is the 16
  bytes and the nonce the 12 bytes that \<open>encryptText\<close> itself draws from the random
  number generator. Base64-decoding the blob gives exactly these bytes, with the salt at
  bytes 0 to 15, the nonce at bytes 16 to 27 and the ciphertext and tag from byte 28 on,
  and \<open>decryptText\<close> on the blob decrypts that ciphertext under the key derived from
  that salt, with that nonce. \<open>decryptText\<close> Base64-decodes whatever it is given,
  failing when that fails, and reads the salt, the nonce and the ciphertext at exactly
  those offsets of the decoded bytes.
\<close>

theorem blob_layout:
  "(let salt = fst (getRandomValues rng 16);
        iv = fst (getRandomValues (snd (getRandomValues rng 16)) 12);
        ct = aes_gcm_encrypt B (deriveKey B k salt) iv (TextEncoder_encode p)
    in length salt = 16 \<and> length iv = 12
     \<and> salt = map rng [0..<16] \<and> iv = map rng [16..<28]
     \<and> (\<forall>blob. encryptText B rng p k = Inr blob \<longrightarrow>
           blob = base64_encode (map unat (salt @ iv @ ct))
         \<and> btoa (map ucast (salt @ iv @ ct)) = Inr blob
         \<and> (\<exists>decoded. atob blob = Inr decoded \<and>
               Uint8Array_from_charCodes decoded = salt @ iv @ ct)
         \<and> decryptText B blob k' =
             (case aes_gcm_decrypt B (deriveKey B k' salt) iv ct of
                None \<Rightarrow> Inl OperationError
              | Some decrypted \<Rightarrow> Inr (TextDecoder_decode decrypted)))
     \<and> (length (salt @ iv @ ct) \<le> argument_limit B \<longrightarrow>
           (\<exists>blob. encryptText B rng p k = Inr blob))
     \<and> take 16 (salt @ iv @ ct) = salt
     \<and> take 12 (drop 16 (salt @ iv @ ct)) = iv
     \<and> drop 28 (salt @ iv @ ct) = ct)
   \<and> (\<forall>decoded. atob stored = Inr decoded \<longrightarrow>
         decryptText B stored k' =
           (case aes_gcm_decrypt B
                   (deriveKey B k' (take 16 (Uint8Array_from_charCodes decoded)))
                   (take 12 (drop 16 (Uint8Array_from_charCodes decoded)))
                   (drop 28 (Uint8Array_from_charCodes decoded)) of
              None \<Rightarrow> Inl OperationError
            | Some decrypted \<Rightarrow> Inr (TextDecoder_decode decrypted)))
   \<and> (\<forall>e. atob stored = Inl e \<longrightarrow> decryptText B stored k' = Inl e)"
proof -
  define salt where "salt = fst (getRandomValues rng 16)"
  define iv where "iv = fst (getRandomValues (snd (getRandomValues rng 16)) 12)"
  define ct where "ct = aes_gcm_encrypt B (deriveKey B k salt) iv (TextEncoder_encode p)"
  have 1: "length salt = 16" "length iv = 12"
    by (simp_all add: salt_def iv_def length_getRandomValues)
  have 2: "salt = map rng [0..<16]" "iv = map rng [16..<28]"
    unfolding salt_def iv_def by (rule getRandomValues_bytes)+
  note r = encryptText_result [OF salt_def iv_def ct_def]
  note ab = atob_btoa [of "salt @ iv @ ct"]
  have 3: "\<forall>blob. encryptText B rng p k = Inr blob \<longrightarrow>
           blob = base64_encode (map unat (salt @ iv @ ct))
         \<and> btoa (map ucast (salt @ iv @ ct)) = Inr blob
         \<and> (\<exists>decoded. atob blob = Inr decoded \<and>
               Uint8Array_from_charCodes decoded = salt @ iv @ ct)
         \<and> decryptText B blob k' =
             (case aes_gcm_decrypt B (deriveKey B k' salt) iv ct of
                None \<Rightarrow> Inl OperationError
              | Some decrypted \<Rightarrow> Inr (TextDecoder_decode decrypted))"
  proof (intro allI impI)
    fix blob assume "encryptText B rng p k = Inr blob"
    with r have b: "blob = base64_encode (map unat (salt @ iv @ ct))"
      by (simp split: if_splits)
    from ab have "\<exists>decoded. atob (base64_encode (map unat (salt @ iv @ ct))) = Inr decoded \<and>
               Uint8Array_from_charCodes decoded = salt @ iv @ ct"
      by blast
    with ab decryptText_blob [OF 1, of B ct k']
    show "blob = base64_encode (map unat (salt @ iv @ ct))
         \<and> btoa (map ucast (salt @ iv @ ct)) = Inr blob
         \<and> (\<exists>decoded. atob blob = Inr decoded \<and>
               Uint8Array_from_charCodes decoded = salt @ iv @ ct)
         \<and> decryptText B blob k' =
             (case aes_gcm_decrypt B (deriveKey B k' salt) iv ct of
                None \<Rightarrow> Inl OperationError
              | Some decrypted \<Rightarrow> Inr (TextDecoder_decode decrypted))"
      unfolding b by blast
  qed
  have 4: "length (salt @ iv @ ct) \<le> argument_limit B \<longrightarrow>
           (\<exists>blob. encryptText B rng p k = Inr blob)"
    using r by simp
  note 5 = slices [OF 1, of ct]
  have 6: "\<forall>decoded. atob stored = Inr decoded \<longrightarrow>
          decryptText B stored k' =
            (case aes_gcm_decrypt B
                    (deriveKey B k' (take 16 (Uint8Array_from_charCodes decoded)))
                    (take 12 (drop 16 (Uint8Array_from_charCodes decoded)))
                    (drop 28 (Uint8Array_from_charCodes decoded)) of
               None \<Rightarrow> Inl OperationError
             | Some decrypted \<Rightarrow> Inr (TextDecoder_decode decrypted))"
    by (simp add: decryptText_def Let_def)
  have 7: "\<forall>e. atob stored = Inl e \<longrightarrow> decryptText B stored k' = Inl e"
    by (simp add: decryptText_def)
  show ?thesis
    unfolding Let_def salt_def [symmetric] iv_def [symmetric] ct_def [symmetric]
    by (intro conjI) (fact 1 2 3 4 5 6 7)+
qed

theorem blob_layout_witness:
  "encryptText sample_browser sample_random (js_literal ''NDA'') (js_literal ''k'')
     = Inr sample_blob
   \<and> fst (getRandomValues sample_random 16) = sample_salt \<and> length sample_salt = 16
   \<and> fst (getRandomValues (snd (getRandomValues sample_random 16)) 12) = sample_iv
   \<and> length sample_iv = 12
   \<and> (\<exists>decoded. atob sample_blob = Inr decoded \<and>
         Uint8Array_from_charCodes decoded = sample_salt @ sample_iv @
           [20, 30, 27, 0, 0, 0, 0, 0, 0, 0, 0, 0, 0, 0, 0, 0, 0, 0, 107])
   \<and> take 16 (sample_salt @ sample_iv @
        [20, 30, 27, 0, 0, 0, 0, 0, 0, 0, 0, 0, 0, 0, 0, 0, 0, 0, 107]) = sample_salt
   \<and> take 12 (drop 16 (sample_salt @ sample_iv @
        [20, 30, 27, 0, 0, 0, 0, 0, 0, 0, 0, 0, 0, 0, 0, 0, 0, 0, 107])) = sample_iv
   \<and> drop 28 (sample_salt @ sample_iv @
        [20, 30, 27, 0, 0, 0, 0, 0, 0, 0, 0, 0, 0, 0, 0, 0, 0, 0, 107])
        = [20, 30, 27, 0, 0, 0, 0, 0, 0, 0, 0, 0, 0, 0, 0, 0, 0, 0, 107]
   \<and> decryptText sample_browser sample_blob (js_literal ''k'') = Inr (js_literal ''NDA'')"
proof -
  note t = blob_layout [where rng = sample_random and B = sample_browser
      and k = "js_literal ''k''" and p = "js_literal ''NDA''" and k' = "js_literal ''k''",
      unfolded Let_def sample_draws sample_ct, THEN conjunct1]
  from t have l: "length sample_salt = 16" "length sample_iv = 12" by blast+
  from t sample_encrypt
  have a: "\<exists>decoded. atob sample_blob = Inr decoded \<and>
         Uint8Array_from_charCodes decoded = sample_salt @ sample_iv @
           [20, 30, 27, 0, 0, 0, 0, 0, 0, 0, 0, 0, 0, 0, 0, 0, 0, 0, 107]"
    by blast
  from t have s: "take 16 (sample_salt @ sample_iv @
        [20, 30, 27, 0, 0, 0, 0, 0, 0, 0, 0, 0, 0, 0, 0, 0, 0, 0, 107]) = sample_salt"
    "take 12 (drop 16 (sample_salt @ sample_iv @
        [20, 30, 27, 0, 0, 0, 0, 0, 0, 0, 0, 0, 0, 0, 0, 0, 0, 0, 107])) = sample_iv"
    "drop 28 (sample_salt @ sample_iv @
        [20, 30, 27, 0, 0, 0, 0, 0, 0, 0, 0, 0, 0, 0, 0, 0, 0, 0, 107])
        = [20, 30, 27, 0, 0, 0, 0, 0, 0, 0, 0, 0, 0, 0, 0, 0, 0, 0, 107]"
    by blast+
  from aead_correct_sample
  have "aes_gcm_decrypt sample_browser (deriveKey sample_browser (js_literal ''k'') sample_salt)
          sample_iv [20, 30, 27, 0, 0, 0, 0, 0, 0, 0, 0, 0, 0, 0, 0, 0, 0, 0, 107]
        = Some (TextEncoder_encode (js_literal ''NDA''))"
    unfolding sample_ct [symmetric] by (simp add: aead_correct_def)
  moreover have "TextDecoder_decode (TextEncoder_encode (js_literal ''NDA'')) = js_literal ''NDA''"
    by (simp add: crypto_eval)
  moreover from t sample_encrypt
  have "decryptText sample_browser sample_blob (js_literal ''k'') =
      (case aes_gcm_decrypt sample_browser (deriveKey sample_browser (js_literal ''k'') sample_salt)
          sample_iv [20, 30, 27, 0, 0, 0, 0, 0, 0, 0, 0, 0, 0, 0, 0, 0, 0, 0, 107] of
         None \<Rightarrow> Inl OperationError
       | Some decrypted \<Rightarrow> Inr (TextDecoder_decode decrypted))"
    by blast
  ultimately
  have d: "decryptText sample_browser sample_blob (js_literal ''k'') = Inr (js_literal ''NDA'')"
    by simp
  show ?thesis
    by (intro conjI) (fact sample_encrypt sample_draws l a s d)+
qed

end
